theory Spec2Isabelle
  imports Complex_Main "HOL-Library.AList" "HOL-Library.Log_Nat"
begin

section \<open>Numbers\<close>

text \<open>
  A JavaScript number is an IEEE 754 double. \<open>jsnum\<close> has the finite doubles, each with
  its exact rational value, the two infinities and NaN. The sign of zero is not modelled:
  it shows only in the sign of the infinity that a division by zero gives, and the one
  division of the source is under \<open>Math.abs\<close>.

  A number of type \<open>rat\<close> is a number as a stats file, the configuration or \<open>toFixed\<close>
  writes it, a decimal; the double it stands for is \<open>round_double\<close> of it, which is what
  \<open>JSON.parse\<close>, the JavaScript reader and \<open>parseFloat\<close> make of the text.
\<close>

datatype jsnum = Finite rat | Infinity | NegInfinity | NaN

text \<open>The exponent \<open>k\<close> of a positive number: \<open>2 ^ k \<le> a < 2 ^ (k + 1)\<close>.\<close>

definition ilog2 :: "rat \<Rightarrow> int" where
  "ilog2 a =
     (let (p, q) = quotient_of a; k = bitlen p - bitlen q
      in if 2 powi k \<le> a then k else k - 1)"

text \<open>The nearest integer, the even one of two that are equally near.\<close>

definition round_even :: "rat \<Rightarrow> int" where
  "round_even q =
     (let f = \<lfloor>q\<rfloor>; r = q - of_int f
      in if r < 1 / 2 then f else if 1 / 2 < r then f + 1 else if even f then f else f + 1)"

text \<open>
  Rounding to the nearest double: \<open>n * 2 ^ e\<close> with 53 bits for \<open>n\<close> and the exponent
  \<open>e\<close> of the last bit no less than -1074 (there, the subnormal numbers and zero). The
  largest double is \<open>(2 ^ 53 - 1) * 2 ^ 971\<close>; what rounds to \<open>2 ^ 1024\<close> or more is an
  infinity.
\<close>

definition round_double :: "rat \<Rightarrow> jsnum" where
  "round_double x =
     (if x = 0 then Finite 0
      else let a = \<bar>x\<bar>;
               e = max (ilog2 a - 52) (- 1074);
               n = round_even (a / 2 powi e);
               r = of_int n * 2 powi e
           in if 971 < e \<or> (e = 971 \<and> 2 ^ 53 \<le> n)
              then (if x < 0 then NegInfinity else Infinity)
              else Finite (if x < 0 then - r else r))"

fun js_neg :: "jsnum \<Rightarrow> jsnum" where
  "js_neg (Finite x) = Finite (- x)"
| "js_neg Infinity = NegInfinity"
| "js_neg NegInfinity = Infinity"
| "js_neg NaN = NaN"

text \<open>\<open>x + y\<close>, \<open>x - y\<close>, \<open>x * y\<close> and \<open>x / y\<close>: the exact result, rounded.\<close>

fun js_add :: "jsnum \<Rightarrow> jsnum \<Rightarrow> jsnum" where
  "js_add (Finite a) (Finite b) = round_double (a + b)"
| "js_add NaN y = NaN"
| "js_add x NaN = NaN"
| "js_add Infinity NegInfinity = NaN"
| "js_add NegInfinity Infinity = NaN"
| "js_add Infinity y = Infinity"
| "js_add x Infinity = Infinity"
| "js_add NegInfinity y = NegInfinity"
| "js_add x NegInfinity = NegInfinity"

definition js_sub :: "jsnum \<Rightarrow> jsnum \<Rightarrow> jsnum" where
  "js_sub x y = js_add x (js_neg y)"

fun js_mul :: "jsnum \<Rightarrow> jsnum \<Rightarrow> jsnum" where
  "js_mul (Finite a) (Finite b) = round_double (a * b)"
| "js_mul NaN y = NaN"
| "js_mul x NaN = NaN"
| "js_mul (Finite a) y = (if a = 0 then NaN else if 0 < a then y else js_neg y)"
| "js_mul x (Finite b) = (if b = 0 then NaN else if 0 < b then x else js_neg x)"
| "js_mul x y = (if x = y then Infinity else NegInfinity)"

text \<open>A zero divisor gives an infinity, or NaN for \<open>0 / 0\<close>.\<close>

fun js_div :: "jsnum \<Rightarrow> jsnum \<Rightarrow> jsnum" where
  "js_div (Finite a) (Finite b) =
     (if b = 0 then (if a = 0 then NaN else if 0 < a then Infinity else NegInfinity)
      else round_double (a / b))"
| "js_div NaN y = NaN"
| "js_div x NaN = NaN"
| "js_div (Finite a) y = Finite 0"
| "js_div x (Finite b) = (if 0 \<le> b then x else js_neg x)"
| "js_div x y = NaN"

fun Math_abs :: "jsnum \<Rightarrow> jsnum" where
  "Math_abs (Finite x) = Finite \<bar>x\<bar>"
| "Math_abs Infinity = Infinity"
| "Math_abs NegInfinity = Infinity"
| "Math_abs NaN = NaN"

text \<open>\<open>x >= y\<close> and \<open>x > y\<close>: every comparison with NaN is false.\<close>

fun js_ge :: "jsnum \<Rightarrow> jsnum \<Rightarrow> bool" where
  "js_ge (Finite x) (Finite y) = (y \<le> x)"
| "js_ge NaN y = False"
| "js_ge x NaN = False"
| "js_ge Infinity y = True"
| "js_ge x NegInfinity = True"
| "js_ge x y = False"

definition js_gt :: "jsnum \<Rightarrow> jsnum \<Rightarrow> bool" where
  "js_gt x y = (js_ge x y \<and> \<not> js_ge y x)"

text \<open>
  The number that \<open>x.toFixed(2)\<close> writes for a finite \<open>x\<close>: \<open>toFixed\<close> takes the sign
  off, picks the integer \<open>n\<close> with \<open>n / 100\<close> nearest to the magnitude (the larger one on
  a tie) and puts the sign back; from \<open>10 ^ 21\<close> on it writes the number itself.
\<close>

definition toFixed2 :: "rat \<Rightarrow> rat" where
  "toFixed2 x =
     (if 10 ^ 21 \<le> \<bar>x\<bar> then x
      else if x < 0 then - (of_int \<lfloor>(- x) * 100 + 1 / 2\<rfloor> / 100)
      else of_int \<lfloor>x * 100 + 1 / 2\<rfloor> / 100)"

text \<open>\<open>parseFloat(x.toFixed(2))\<close>; an infinity and NaN are written and read back as they are.\<close>

definition parseFloat_toFixed2 :: "jsnum \<Rightarrow> jsnum" where
  "parseFloat_toFixed2 x = (case x of Finite r \<Rightarrow> round_double (toFixed2 r) | _ \<Rightarrow> x)"

section \<open>File name normalization\<close>

text \<open>
  The three replacements of \<open>generateBundleStats\<close> use regular expressions anchored at
  the end of the name, with the flag \<open>i\<close>. \<open>String.prototype.replace\<close> with such a
  pattern rewrites the leftmost position from which the rest of the string matches the
  pattern as a whole; \<open>replace_at_end\<close> tries the start positions from the left.
\<close>

definition is_hex :: "char \<Rightarrow> bool" where
  "is_hex c = (c \<in> set ''0123456789abcdefABCDEF'')"

text \<open>\<open>\.js$\<close> under the flag \<open>i\<close>.\<close>

definition is_dot_js :: "string \<Rightarrow> bool" where
  "is_dot_js s = (s \<in> set [''.js'', ''.jS'', ''.Js'', ''.JS''])"

text \<open>\<open>SEP[0-9a-f]{n,}\.js$\<close> matched against the whole of \<open>s\<close>.\<close>

definition matches_hash :: "char \<Rightarrow> nat \<Rightarrow> string \<Rightarrow> bool" where
  "matches_hash sep n s =
     (case s of
        [] \<Rightarrow> False
      | c # rest \<Rightarrow>
          c = sep \<and> 3 \<le> length rest \<and>
          is_dot_js (drop (length rest - 3) rest) \<and>
          n \<le> length rest - 3 \<and>
          list_all is_hex (take (length rest - 3) rest))"

text \<open>\<open>\.chunk\.js$\<close> under the flag \<open>i\<close>, matched against the whole of \<open>s\<close>.\<close>

definition lower_ascii :: "char \<Rightarrow> char" where
  "lower_ascii c =
     (if c \<in> set ''ABCDEFGHIJKLMNOPQRSTUVWXYZ'' then char_of (of_char c + (32::nat)) else c)"

definition matches_chunk :: "string \<Rightarrow> bool" where
  "matches_chunk s = (map lower_ascii s = ''.chunk.js'')"

fun replace_at_end :: "(string \<Rightarrow> bool) \<Rightarrow> string \<Rightarrow> string \<Rightarrow> string" where
  "replace_at_end p rep [] = (if p [] then rep else [])"
| "replace_at_end p rep (c # cs) = (if p (c # cs) then rep else c # replace_at_end p rep cs)"

text \<open>The constant \<open>cleanName\<close> of \<open>generateBundleStats\<close>, as a function of \<open>file\<close>.\<close>

definition cleanName :: "string \<Rightarrow> string" where
  "cleanName file =
     replace_at_end matches_chunk ''.js''
       (replace_at_end (matches_hash CHR ''-'' 10) ''.js''
         (replace_at_end (matches_hash CHR ''.'' 8) ''.js'' file))"

text \<open>Whether a pattern matches somewhere in the name, that is, whether \<open>replace\<close> rewrites it.\<close>

fun matches_at_end :: "(string \<Rightarrow> bool) \<Rightarrow> string \<Rightarrow> bool" where
  "matches_at_end p [] = p []"
| "matches_at_end p (c # cs) = (p (c # cs) \<or> matches_at_end p cs)"

section \<open>Objects, arrays and strings\<close>

text \<open>
  A JavaScript object whose keys are file names is an association list in insertion
  order with distinct keys. \<open>obj[k] = v\<close> is \<^const>\<open>AList.update\<close>: the value of an
  existing key is replaced where it stands, a new key is appended. \<open>obj[k]\<close> is
  \<^const>\<open>map_of\<close>. The keys are canonical file names, which end in \<open>.js\<close>: none of
  them is an array index (which \<open>Object.entries\<close> would list first) or the name of a
  property that every object inherits.
\<close>

definition Object_fromEntries :: "('k \<times> 'v) list \<Rightarrow> ('k \<times> 'v) list" where
  "Object_fromEntries es = fold (\<lambda>(k, v) obj. AList.update k v obj) es []"

text \<open>
  \<open>Array.prototype.sort\<close> with a comparator is stable; with a consistent comparator
  every stable sort returns the same array, here by insertion: an element goes before
  the first one it does not compare greater than.
\<close>

fun insert_sorted :: "('a \<Rightarrow> 'a \<Rightarrow> rat) \<Rightarrow> 'a \<Rightarrow> 'a list \<Rightarrow> 'a list" where
  "insert_sorted cmp x [] = [x]"
| "insert_sorted cmp x (y # ys) =
     (if cmp x y \<le> 0 then x # y # ys else y # insert_sorted cmp x ys)"

definition Array_sort :: "('a \<Rightarrow> 'a \<Rightarrow> rat) \<Rightarrow> 'a list \<Rightarrow> 'a list" where
  "Array_sort cmp xs = foldr (insert_sorted cmp) xs []"

fun startsWith :: "string \<Rightarrow> string \<Rightarrow> bool" where
  "startsWith s [] = True"
| "startsWith [] (c # cs) = False"
| "startsWith (x # xs) (c # cs) = (x = c \<and> startsWith xs cs)"

fun String_includes :: "string \<Rightarrow> string \<Rightarrow> bool" where
  "String_includes [] sub = (sub = [])"
| "String_includes (x # xs) sub = (startsWith (x # xs) sub \<or> String_includes xs sub)"

section \<open>Data model\<close>

record BundleEntry =
  size' :: rat

type_synonym BundleMap = "(string \<times> BundleEntry) list"

record ChangedEntry =
  current :: rat
  master :: rat
  difference :: rat

record Summary =
  totalAdded :: jsnum
  totalRemoved :: jsnum
  sizeIncrease :: jsnum
  sizeDecrease :: jsnum
  countChanged :: nat

record DiffResult =
  added :: BundleMap
  removed :: BundleMap
  changed :: "(string \<times> ChangedEntry) list"
  same :: "(string \<times> rat) list"
  summary :: Summary

record FailedFile =
  fileName :: string
  fileSize :: rat

record FailedFiles =
  aboveAverageFiles :: "FailedFile list"
  belowAverageFiles :: "FailedFile list"

text \<open>
  The configuration of a reporter. Its two allowlists have the names of the two lists of
  \<open>FailedFiles\<close> in the source; here they carry the suffix \<open>_cfg\<close>.
\<close>

record Config =
  buildFolder :: string
  outputFolder :: string
  changeThreshold :: rat
  splittingUpperLimit :: rat
  splittingLowerLimit :: rat
  masterFile :: string
  currentFile :: string
  outputFile :: string
  failureFile :: string
  aboveAverageFiles_cfg :: "string list"
  belowAverageFiles_cfg :: "string list"

text \<open>The argument of the constructor: every option may be missing.\<close>

record Options =
  opt_buildFolder :: "string option"
  opt_outputFolder :: "string option"
  opt_changeThreshold :: "rat option"
  opt_splittingUpperLimit :: "rat option"
  opt_splittingLowerLimit :: "rat option"
  opt_masterFile :: "string option"
  opt_currentFile :: "string option"
  opt_outputFile :: "string option"
  opt_failureFile :: "string option"
  opt_aboveAverageFiles :: "string list option"
  opt_belowAverageFiles :: "string list option"

text \<open>The fields of \<open>this\<close>: \<open>diff\<close> and \<open>failedFiles\<close> are \<open>null\<close> until a report is generated.\<close>

record Reporter =
  config :: Config
  diff :: "DiffResult option"
  failedFiles :: "FailedFiles option"

section \<open>The file system\<close>

text \<open>
  A path is the list of the segments given to \<open>path.join\<close>, after the working
  directory. A file holds a bundle map (what \<open>JSON.stringify\<close> wrote and
  \<open>JSON.parse\<close> reads back) or text that is not JSON. A directory lists its entries in
  the order of \<open>readdirSync\<close>, each with what \<open>statSync\<close> returns for it
  (\<open>None\<close> when it throws). \<open>writable\<close> says where \<open>writeFileSync\<close> and
  \<open>mkdirSync\<close> succeed.
\<close>

type_synonym path = "string list"

datatype content = Stats BundleMap | Text string

record Stat =
  isFile :: bool
  bytes :: nat

record FileSystem =
  files :: "path \<rightharpoonup> content"
  dirs :: "path \<rightharpoonup> (string \<times> Stat option) list"
  writable :: "path \<Rightarrow> bool"

datatype error = IOError | SyntaxError | TypeError | Exit nat

definition path_join :: "path \<Rightarrow> string list \<Rightarrow> path" where
  "path_join cwd segments = cwd @ segments"

definition existsSync :: "FileSystem \<Rightarrow> path \<Rightarrow> bool" where
  "existsSync fs p = (files fs p \<noteq> None \<or> dirs fs p \<noteq> None)"

definition mkdirSync :: "FileSystem \<Rightarrow> path \<Rightarrow> error + FileSystem" where
  "mkdirSync fs p =
     (if writable fs p \<and> \<not> existsSync fs p then Inr (fs\<lparr>dirs := (dirs fs)(p \<mapsto> [])\<rparr>)
      else Inl IOError)"

definition writeFileSync :: "FileSystem \<Rightarrow> path \<Rightarrow> content \<Rightarrow> error + FileSystem" where
  "writeFileSync fs p c =
     (if writable fs p then Inr (fs\<lparr>files := (files fs)(p \<mapsto> c)\<rparr>) else Inl IOError)"

definition readdirSync :: "FileSystem \<Rightarrow> path \<Rightarrow> error + (string \<times> Stat option) list" where
  "readdirSync fs p = (case dirs fs p of None \<Rightarrow> Inl IOError | Some es \<Rightarrow> Inr es)"

definition readJsonFile :: "FileSystem \<Rightarrow> path \<Rightarrow> error + BundleMap" where
  "readJsonFile fs filePath =
     (case files fs filePath of
        None \<Rightarrow> Inl IOError
      | Some (Text t) \<Rightarrow> Inl SyntaxError
      | Some (Stats m) \<Rightarrow> Inr m)"

text \<open>
  \<open>path.extname\<close> on a name without separators: from the last dot on, and empty when
  there is no dot, when the last dot is the first character, or for the name \<open>..\<close>.
\<close>

definition path_extname :: "string \<Rightarrow> string" where
  "path_extname f =
     (let ext = CHR ''.'' # rev (takeWhile (\<lambda>c. c \<noteq> CHR ''.'') (rev f))
      in if CHR ''.'' \<notin> set f \<or> length ext = length f \<or> f = ''..'' then [] else ext)"

section \<open>The constructor\<close>

text \<open>\<open>x || d\<close>: the empty string and the number zero are falsy, an array never is.\<close>

definition or_string :: "string option \<Rightarrow> string \<Rightarrow> string" where
  "or_string x d = (case x of None \<Rightarrow> d | Some s \<Rightarrow> if s = [] then d else s)"

definition or_number :: "rat option \<Rightarrow> rat \<Rightarrow> rat" where
  "or_number x d = (case x of None \<Rightarrow> d | Some n \<Rightarrow> if n = 0 then d else n)"

definition or_array :: "'a list option \<Rightarrow> 'a list \<Rightarrow> 'a list" where
  "or_array x d = (case x of None \<Rightarrow> d | Some a \<Rightarrow> a)"

definition constructor :: "Options \<Rightarrow> path \<Rightarrow> FileSystem \<Rightarrow> error + Reporter \<times> FileSystem" where
  "constructor options cwd fs =
     (let this = \<lparr>config = \<lparr>
            buildFolder = or_string (opt_buildFolder options) ''dist'',
            outputFolder = or_string (opt_outputFolder options) ''bundle-analyzer'',
            changeThreshold = or_number (opt_changeThreshold options) 5,
            splittingUpperLimit = or_number (opt_splittingUpperLimit options) 250,
            splittingLowerLimit = or_number (opt_splittingLowerLimit options) 20,
            masterFile = or_string (opt_masterFile options) ''master-bundle-stats.json'',
            currentFile = or_string (opt_currentFile options) ''current-bundle-stats.json'',
            outputFile = or_string (opt_outputFile options) ''bundle-size-report.md'',
            failureFile = or_string (opt_failureFile options) ''bundle-diff-stage-failed.txt'',
            aboveAverageFiles_cfg = or_array (opt_aboveAverageFiles options) [],
            belowAverageFiles_cfg = or_array (opt_belowAverageFiles options) []\<rparr>,
          diff = None, failedFiles = None\<rparr>
      in if \<not> existsSync fs (path_join cwd [outputFolder (config this)])
         then (case mkdirSync fs (path_join cwd [outputFolder (config this)]) of
                 Inl e \<Rightarrow> Inl e
               | Inr fs' \<Rightarrow> Inr (this, fs'))
         else Inr (this, fs))"

section \<open>The stats extractor\<close>

text \<open>
  The callback of \<open>filter\<close>: \<open>statSync\<close> is called on every entry, and the first
  one on which it throws ends the scan.
\<close>

fun filter_js :: "(string \<times> Stat option) list \<Rightarrow> error + (string \<times> Stat) list" where
  "filter_js [] = Inr []"
| "filter_js ((file, st) # es) =
     (case st of
        None \<Rightarrow> Inl IOError
      | Some s \<Rightarrow>
          (case filter_js es of
             Inl e \<Rightarrow> Inl e
           | Inr r \<Rightarrow> Inr (if isFile s \<and> path_extname file = ''.js'' then (file, s) # r else r)))"

definition sizeKB :: "nat \<Rightarrow> rat" where
  "sizeKB n = toFixed2 (of_nat n / 1024)"

text \<open>The callback of \<open>forEach\<close>, and the object \<open>result\<close> after the loop.\<close>

definition recordFile :: "string \<times> Stat \<Rightarrow> BundleMap \<Rightarrow> BundleMap" where
  "recordFile =
     (\<lambda>(file, st) result. AList.update (cleanName file) \<lparr>size' = sizeKB (bytes st)\<rparr> result)"

definition collect :: "(string \<times> Stat) list \<Rightarrow> BundleMap" where
  "collect js = fold recordFile js []"

definition sortedResult :: "BundleMap \<Rightarrow> BundleMap" where
  "sortedResult result =
     fold (\<lambda>(key, val) sorted. AList.update key val sorted)
       (Array_sort (\<lambda>(ka, a) (kb, b). size' b - size' a) result) []"

definition generateBundleStats :: "Config \<Rightarrow> path \<Rightarrow> FileSystem \<Rightarrow> error + FileSystem" where
  "generateBundleStats cfg cwd fs =
     (case readdirSync fs (path_join cwd [buildFolder cfg]) of
        Inl e \<Rightarrow> Inl e
      | Inr entries \<Rightarrow>
          (case filter_js entries of
             Inl e \<Rightarrow> Inl e
           | Inr js \<Rightarrow>
               writeFileSync fs (path_join cwd [outputFolder cfg, currentFile cfg])
                 (Stats (sortedResult (collect js)))))"

section \<open>The diff\<close>

definition initializeDiff :: DiffResult where
  "initializeDiff =
     \<lparr>added = [], removed = [], changed = [], same = [],
      summary = \<lparr>totalAdded = Finite 0, totalRemoved = Finite 0, sizeIncrease = Finite 0,
                 sizeDecrease = Finite 0, countChanged = 0\<rparr>\<rparr>"

definition addNewFile :: "DiffResult \<Rightarrow> string \<Rightarrow> BundleEntry \<Rightarrow> DiffResult" where
  "addNewFile d file fileData =
     d\<lparr>added := AList.update file fileData (added d),
       summary := (summary d)\<lparr>totalAdded :=
         js_add (totalAdded (summary d)) (round_double (size' fileData))\<rparr>\<rparr>"

text \<open>The constants \<open>sizeDiff\<close> and \<open>sizeDiffPercent\<close> of \<open>processChangedFile\<close>.\<close>

definition sizeDiff :: "BundleEntry \<Rightarrow> BundleEntry \<Rightarrow> jsnum" where
  "sizeDiff currentData masterData =
     js_sub (round_double (size' currentData)) (round_double (size' masterData))"

definition sizeDiffPercent :: "BundleEntry \<Rightarrow> BundleEntry \<Rightarrow> jsnum" where
  "sizeDiffPercent currentData masterData =
     Math_abs
       (js_mul (js_div (sizeDiff currentData masterData) (round_double (size' masterData)))
          (Finite 100))"

text \<open>
  The field \<open>difference\<close> is \<open>parseFloat(sizeDiff.toFixed(2))\<close>, held as the number that
  \<open>toFixed\<close> writes. Sizes are sizes of files in KB, far inside the range of the doubles,
  and their difference is finite; where it is not, the code stores an infinity or NaN, for
  which the field has no value (it is 0 here).
\<close>

definition toFixed2_of :: "jsnum \<Rightarrow> rat" where
  "toFixed2_of x = (case x of Finite r \<Rightarrow> toFixed2 r | _ \<Rightarrow> 0)"

definition processChangedFile ::
  "Config \<Rightarrow> DiffResult \<Rightarrow> string \<Rightarrow> BundleEntry \<Rightarrow> BundleEntry \<Rightarrow> DiffResult" where
  "processChangedFile cfg d file currentData masterData =
     (let sd = sizeDiff currentData masterData
      in if js_ge (sizeDiffPercent currentData masterData) (round_double (changeThreshold cfg))
         then d\<lparr>changed :=
                  AList.update file
                    \<lparr>current = size' currentData, master = size' masterData,
                     difference = toFixed2_of sd\<rparr> (changed d),
                summary :=
                  (if js_gt sd (Finite 0)
                   then (summary d)\<lparr>countChanged := countChanged (summary d) + 1,
                          sizeIncrease := js_add (sizeIncrease (summary d)) sd\<rparr>
                   else (summary d)\<lparr>countChanged := countChanged (summary d) + 1,
                          sizeDecrease := js_add (sizeDecrease (summary d)) (Math_abs sd)\<rparr>)\<rparr>
         else d\<lparr>same := AList.update file (size' currentData) (same d)\<rparr>)"

definition sortChangedFiles :: "(string \<times> ChangedEntry) list \<Rightarrow> (string \<times> ChangedEntry) list" where
  "sortChangedFiles changedFiles =
     fold (\<lambda>(key, val) sorted. AList.update key val sorted)
       (Array_sort (\<lambda>(ka, a) (kb, b). difference b - difference a) changedFiles) []"

text \<open>The callback of \<open>forEach\<close> in \<open>processAddedAndChangedFiles\<close>.\<close>

definition addedOrChanged ::
  "Config \<Rightarrow> BundleMap \<Rightarrow> string \<times> BundleEntry \<Rightarrow> DiffResult \<Rightarrow> DiffResult" where
  "addedOrChanged cfg masterStats =
     (\<lambda>(file, fileData) d.
        case map_of masterStats file of
          None \<Rightarrow> addNewFile d file fileData
        | Some masterData \<Rightarrow> processChangedFile cfg d file fileData masterData)"

definition processAddedAndChangedFiles ::
  "Config \<Rightarrow> BundleMap \<Rightarrow> BundleMap \<Rightarrow> DiffResult \<Rightarrow> DiffResult" where
  "processAddedAndChangedFiles cfg masterStats currentStats d =
     (let d' = fold (addedOrChanged cfg masterStats) currentStats d
      in if length (changed d') \<noteq> 0 then d'\<lparr>changed := sortChangedFiles (changed d')\<rparr> else d')"

text \<open>The callback of \<open>forEach\<close> in \<open>processRemovedFiles\<close>.\<close>

definition removedFile :: "BundleMap \<Rightarrow> string \<times> BundleEntry \<Rightarrow> DiffResult \<Rightarrow> DiffResult" where
  "removedFile currentStats =
     (\<lambda>(file, fileData) d.
        case map_of currentStats file of
          None \<Rightarrow> d\<lparr>removed := AList.update file fileData (removed d),
                     summary := (summary d)\<lparr>totalRemoved :=
                       js_add (totalRemoved (summary d)) (round_double (size' fileData))\<rparr>\<rparr>
        | Some currentData \<Rightarrow> d)"

definition processRemovedFiles :: "BundleMap \<Rightarrow> BundleMap \<Rightarrow> DiffResult \<Rightarrow> DiffResult" where
  "processRemovedFiles masterStats currentStats d = fold (removedFile currentStats) masterStats d"

definition finalizeDiff :: "DiffResult \<Rightarrow> DiffResult" where
  "finalizeDiff d =
     d\<lparr>summary :=
         \<lparr>totalAdded = parseFloat_toFixed2 (totalAdded (summary d)),
          totalRemoved = parseFloat_toFixed2 (totalRemoved (summary d)),
          sizeIncrease = parseFloat_toFixed2 (sizeIncrease (summary d)),
          sizeDecrease = parseFloat_toFixed2 (sizeDecrease (summary d)),
          countChanged = countChanged (summary d)\<rparr>\<rparr>"

text \<open>The body of the \<open>try\<close> block of \<open>compareBundleSizes\<close>, from the two parsed files on.\<close>

definition computeDiff :: "Config \<Rightarrow> BundleMap \<Rightarrow> BundleMap \<Rightarrow> DiffResult" where
  "computeDiff cfg masterStats currentStats =
     finalizeDiff
       (processRemovedFiles masterStats currentStats
         (processAddedAndChangedFiles cfg masterStats currentStats initializeDiff))"

text \<open>
  \<open>compareBundleSizes\<close> leaves the process with status 1 when a stats file is missing
  or cannot be read. The two objects it clears at the end are its own.
\<close>

definition compareBundleSizes :: "Config \<Rightarrow> path \<Rightarrow> FileSystem \<Rightarrow> error + DiffResult" where
  "compareBundleSizes cfg cwd fs =
     (let masterPath = path_join cwd [outputFolder cfg, masterFile cfg];
          currentPath = path_join cwd [outputFolder cfg, currentFile cfg]
      in if \<not> existsSync fs masterPath then Inl (Exit 1)
         else if \<not> existsSync fs currentPath then Inl (Exit 1)
         else (case readJsonFile fs masterPath of
                 Inl e \<Rightarrow> Inl (Exit 1)
               | Inr masterStats \<Rightarrow>
                   (case readJsonFile fs currentPath of
                      Inl e \<Rightarrow> Inl (Exit 1)
                    | Inr currentStats \<Rightarrow> Inr (computeDiff cfg masterStats currentStats))))"

section \<open>The size budget\<close>

definition extractFileSizes :: "DiffResult \<Rightarrow> (string \<times> rat) list" where
  "extractFileSizes d =
     (let addedFiles = Object_fromEntries (map (\<lambda>(name, fileData). (name, size' fileData)) (added d));
          changedFiles = Object_fromEntries (map (\<lambda>(name, fileData). (name, current fileData)) (changed d))
      in fold (\<lambda>(k, v) obj. AList.update k v obj) changedFiles addedFiles)"

definition isAboveAverageFile :: "Config \<Rightarrow> string \<Rightarrow> rat \<Rightarrow> bool" where
  "isAboveAverageFile cfg name sz =
     (splittingUpperLimit cfg < sz \<and> name \<notin> set (aboveAverageFiles_cfg cfg))"

definition isBelowAverageFile :: "Config \<Rightarrow> string \<Rightarrow> rat \<Rightarrow> bool" where
  "isBelowAverageFile cfg name sz =
     (sz < splittingLowerLimit cfg \<and> name \<notin> set (belowAverageFiles_cfg cfg) \<and>
      \<not> String_includes name ''resolver'')"

text \<open>The callback of \<open>forEach\<close> in \<open>checkFileSize\<close>.\<close>

definition checkFile :: "Config \<Rightarrow> string \<times> rat \<Rightarrow> FailedFiles \<Rightarrow> FailedFiles" where
  "checkFile cfg =
     (\<lambda>(name, sz) ff.
        if isAboveAverageFile cfg name sz
        then ff\<lparr>aboveAverageFiles :=
                  aboveAverageFiles ff @ [\<lparr>fileName = name, fileSize = sz\<rparr>]\<rparr>
        else if isBelowAverageFile cfg name sz
        then ff\<lparr>belowAverageFiles :=
                  belowAverageFiles ff @ [\<lparr>fileName = name, fileSize = sz\<rparr>]\<rparr>
        else ff)"

definition checkFileSize :: "Config \<Rightarrow> DiffResult \<Rightarrow> FailedFiles" where
  "checkFileSize cfg d =
     fold (checkFile cfg) (extractFileSizes d) \<lparr>aboveAverageFiles = [], belowAverageFiles = []\<rparr>"

section \<open>The verdict\<close>

text \<open>\<open>isSuccess\<close> reads \<open>this.failedFiles\<close>, and throws while it is \<open>null\<close>.\<close>

definition isSuccess :: "Reporter \<Rightarrow> error + bool" where
  "isSuccess this =
     (case failedFiles this of
        None \<Rightarrow> Inl TypeError
      | Some ff \<Rightarrow> Inr (length (belowAverageFiles ff) = 0 \<and> length (aboveAverageFiles ff) = 0))"

text \<open>The text of the marker: a red circle (four bytes in UTF-8) and a message.\<close>

definition failureText :: string where
  "failureText =
     [char_of (240::nat), char_of (159::nat), char_of (148::nat), char_of (180::nat)] @
     '' Failed to pass bundle size check''"

definition writeFailureFlag :: "Reporter \<Rightarrow> path \<Rightarrow> FileSystem \<Rightarrow> error + FileSystem" where
  "writeFailureFlag this cwd fs =
     (case isSuccess this of
        Inl e \<Rightarrow> Inl e
      | Inr ok \<Rightarrow>
          if \<not> ok
          then writeFileSync fs
                 (path_join cwd [outputFolder (config this), failureFile (config this)])
                 (Text failureText)
          else Inr fs)"

section \<open>Example inputs\<close>

definition default_config :: Config where
  "default_config =
     \<lparr>buildFolder = ''dist'', outputFolder = ''bundle-analyzer'', changeThreshold = 5,
      splittingUpperLimit = 250, splittingLowerLimit = 20,
      masterFile = ''master-bundle-stats.json'', currentFile = ''current-bundle-stats.json'',
      outputFile = ''bundle-size-report.md'', failureFile = ''bundle-diff-stage-failed.txt'',
      aboveAverageFiles_cfg = [], belowAverageFiles_cfg = []\<rparr>"

definition zero_options :: Options where
  "zero_options =
     \<lparr>opt_buildFolder = None, opt_outputFolder = None, opt_changeThreshold = Some 0,
      opt_splittingUpperLimit = Some 0, opt_splittingLowerLimit = Some 0, opt_masterFile = None,
      opt_currentFile = None, opt_outputFile = None, opt_failureFile = None,
      opt_aboveAverageFiles = None, opt_belowAverageFiles = None\<rparr>"

definition empty_fs :: FileSystem where
  "empty_fs = \<lparr>files = Map.empty, dirs = Map.empty, writable = (\<lambda>p. True)\<rparr>"

definition passing_reporter :: Reporter where
  "passing_reporter =
     \<lparr>config = default_config, diff = None,
      failedFiles = Some \<lparr>aboveAverageFiles = [], belowAverageFiles = []\<rparr>\<rparr>"

definition failing_reporter :: Reporter where
  "failing_reporter =
     \<lparr>config = default_config, diff = None,
      failedFiles = Some \<lparr>aboveAverageFiles = [\<lparr>fileName = ''c.js'', fileSize = 300\<rparr>],
                           belowAverageFiles = []\<rparr>\<rparr>"

definition example_master :: BundleMap where
  "example_master =
     [(''a.js'', \<lparr>size' = 100\<rparr>), (''b.js'', \<lparr>size' = 10\<rparr>), (''z.js'', \<lparr>size' = 0\<rparr>),
      (''r.js'', \<lparr>size' = 7\<rparr>)]"

definition example_current :: BundleMap where
  "example_current =
     [(''a.js'', \<lparr>size' = 50\<rparr>), (''b.js'', \<lparr>size' = 11\<rparr>), (''z.js'', \<lparr>size' = 0\<rparr>),
      (''n.js'', \<lparr>size' = 300\<rparr>), (''chunk-resolver.js'', \<lparr>size' = 5\<rparr>)]"

definition example_fs :: FileSystem where
  "example_fs =
     \<lparr>files = [[''bundle-analyzer'', ''master-bundle-stats.json''] \<mapsto> Stats example_master,
               [''bundle-analyzer'', ''current-bundle-stats.json''] \<mapsto> Stats example_current],
      dirs = [[''bundle-analyzer''] \<mapsto> []],
      writable = (\<lambda>p. True)\<rparr>"

definition example_diff :: DiffResult where
  "example_diff =
     \<lparr>added = [(''n.js'', \<lparr>size' = 300\<rparr>), (''chunk-resolver.js'', \<lparr>size' = 5\<rparr>)],
      removed = [(''r.js'', \<lparr>size' = 7\<rparr>)],
      changed = [(''b.js'', \<lparr>current = 11, master = 10, difference = 1\<rparr>),
                 (''a.js'', \<lparr>current = 50, master = 100, difference = - 50\<rparr>)],
      same = [(''z.js'', 0)],
      summary = \<lparr>totalAdded = Finite 305, totalRemoved = Finite 7, sizeIncrease = Finite 1,
                 sizeDecrease = Finite 50, countChanged = 2\<rparr>\<rparr>"

definition example_entries :: "(string \<times> Stat option) list" where
  "example_entries =
     [(''main.aaaaaaaa.js'', Some \<lparr>isFile = True, bytes = 2048\<rparr>),
      (''x.js'', Some \<lparr>isFile = True, bytes = 4096\<rparr>),
      (''assets'', Some \<lparr>isFile = False, bytes = 64\<rparr>),
      (''style.css'', Some \<lparr>isFile = True, bytes = 512\<rparr>),
      (''main.bbbbbbbb.js'', Some \<lparr>isFile = True, bytes = 10000\<rparr>)]"

definition example_build_fs :: FileSystem where
  "example_build_fs =
     \<lparr>files = Map.empty, dirs = [[''dist''] \<mapsto> example_entries, [''bundle-analyzer''] \<mapsto> []],
      writable = (\<lambda>p. True)\<rparr>"

section \<open>Properties named by the specification\<close>

text \<open>
  The order the specification gives for the changed files (descending absolute difference),
  and the order of the comparator of \<open>sortChangedFiles\<close> (descending difference).
\<close>

definition ordered_by_abs_difference :: "(string \<times> ChangedEntry) list \<Rightarrow> bool" where
  "ordered_by_abs_difference xs =
     sorted_wrt (\<lambda>x y. \<bar>difference (snd y)\<bar> \<le> \<bar>difference (snd x)\<bar>) xs"

definition ordered_by_difference :: "(string \<times> ChangedEntry) list \<Rightarrow> bool" where
  "ordered_by_difference xs = sorted_wrt (\<lambda>x y. difference (snd y) \<le> difference (snd x)) xs"

text \<open>
  What one strip rule does to a name \<open>s\<close>: the leftmost suffix that the pattern \<open>p\<close>
  matches is replaced by \<open>.js\<close>, and a name without such a suffix is left as it is.
\<close>

definition strips :: "(string \<Rightarrow> bool) \<Rightarrow> string \<Rightarrow> string \<Rightarrow> bool" where
  "strips p s r =
     ((\<exists>u v. s = u @ v \<and> p v \<and> (\<forall>u' v'. s = u' @ v' \<and> length u' < length u \<longrightarrow> \<not> p v') \<and>
             r = u @ ''.js'') \<or>
      ((\<forall>u v. s = u @ v \<longrightarrow> \<not> p v) \<and> r = s))"

section \<open>Auxiliary facts\<close>

subsection \<open>Objects\<close>

lemma update_fresh: "k \<notin> fst ` set al \<Longrightarrow> AList.update k v al = al @ [(k, v)]"
  by (induction al) auto

lemma fold_update_fresh:
  "distinct (map fst xs) \<Longrightarrow> fst ` set xs \<inter> fst ` set acc = {} \<Longrightarrow>
   fold (\<lambda>(k, v) obj. AList.update k v obj) xs acc = acc @ xs"
proof (induction xs arbitrary: acc)
  case Nil
  then show ?case by simp
next
  case (Cons x xs)
  obtain k v where x: "x = (k, v)" by (cases x)
  from Cons.prems have fresh: "k \<notin> fst ` set acc" by (auto simp: x)
  have "fst ` set xs \<inter> fst ` set (acc @ [(k, v)]) = {}"
    using Cons.prems by (auto simp: x)
  with Cons.IH [of "acc @ [(k, v)]"] Cons.prems show ?case
    by (simp add: x update_fresh [OF fresh])
qed

lemma Object_fromEntries_distinct:
  "distinct (map fst xs) \<Longrightarrow> Object_fromEntries xs = xs"
  unfolding Object_fromEntries_def using fold_update_fresh [of xs "[]"] by simp

lemma fold_update_keys:
  "fst ` set (fold (\<lambda>(k, v) obj. AList.update k v obj) xs acc) = fst ` set acc \<union> fst ` set xs"
  by (induction xs arbitrary: acc) (auto simp: dom_update split: prod.splits)

lemma fold_update_distinct:
  "distinct (map fst acc) \<Longrightarrow> distinct (map fst (fold (\<lambda>(k, v) obj. AList.update k v obj) xs acc))"
  by (induction xs arbitrary: acc) (auto simp: distinct_update split: prod.splits)

subsection \<open>Sorting\<close>

lemma set_insert_sorted: "set (insert_sorted cmp x ys) = insert x (set ys)"
  by (induction ys) auto

lemma set_Array_sort: "set (Array_sort cmp xs) = set xs"
  unfolding Array_sort_def by (induction xs) (auto simp: set_insert_sorted)

lemma distinct_insert_sorted:
  "distinct (map f (insert_sorted cmp x ys)) = (f x \<notin> f ` set ys \<and> distinct (map f ys))"
  by (induction ys) (auto simp: set_insert_sorted)

lemma distinct_Array_sort: "distinct (map f (Array_sort cmp xs)) = distinct (map f xs)"
  unfolding Array_sort_def
  by (induction xs) (auto simp: distinct_insert_sorted set_Array_sort [unfolded Array_sort_def])

lemma sorted_insert_sorted:
  fixes key :: "'a \<Rightarrow> rat"
  assumes "sorted_wrt (\<lambda>a b. key b \<le> key a) ys"
  shows "sorted_wrt (\<lambda>a b. key b \<le> key a) (insert_sorted (\<lambda>a b. key b - key a) x ys)"
  using assms by (induction ys) (auto simp: set_insert_sorted)

lemma sorted_Array_sort:
  fixes key :: "'a \<Rightarrow> rat"
  shows "sorted_wrt (\<lambda>a b. key b \<le> key a) (Array_sort (\<lambda>a b. key b - key a) xs)"
  unfolding Array_sort_def by (induction xs) (auto intro: sorted_insert_sorted)

lemma sortChangedFiles_eq:
  assumes "distinct (map fst xs)"
  shows "sortChangedFiles xs = Array_sort (\<lambda>(ka, a) (kb, b). difference b - difference a) xs"
  unfolding sortChangedFiles_def
  using fold_update_fresh [of "Array_sort (\<lambda>(ka, a) (kb, b). difference b - difference a) xs" "[]"] assms
  by (simp add: distinct_Array_sort)

lemma sortedResult_eq:
  assumes "distinct (map fst xs)"
  shows "sortedResult xs = Array_sort (\<lambda>(ka, a) (kb, b). size' b - size' a) xs"
  unfolding sortedResult_def
  using fold_update_fresh [of "Array_sort (\<lambda>(ka, a) (kb, b). size' b - size' a) xs" "[]"] assms
  by (simp add: distinct_Array_sort)

lemma map_of_Array_sort:
  assumes "distinct (map fst xs)"
  shows "map_of (Array_sort cmp xs) = map_of xs"
  using assms by (simp add: map_of_inject_set distinct_Array_sort set_Array_sort)

subsection \<open>Rounding\<close>

lemma round_double_not_NaN [simp]: "round_double x \<noteq> NaN"
  by (simp add: round_double_def Let_def)

lemma round_double_0 [simp]: "round_double 0 = Finite 0"
  by (simp add: round_double_def)

lemma ilog2_le:
  assumes "0 < a"
  shows "2 powi (ilog2 a) \<le> a"
proof -
  obtain p q where pq: "quotient_of a = (p, q)" by (cases "quotient_of a")
  then have q: "0 < q" and a: "a = of_int p / of_int q"
    by (simp_all add: quotient_of_denom_pos quotient_of_div)
  from assms a q have p: "0 < p"
    by (simp add: zero_less_divide_iff)
  let ?k = "bitlen p - bitlen q"
  show ?thesis
  proof (cases "2 powi ?k \<le> a")
    case True
    then show ?thesis by (simp add: ilog2_def pq)
  next
    case False
    have bp: "(2::rat) ^ nat (bitlen p - 1) \<le> of_int p"
    proof -
      from bitlen_bounds [OF p] have "2 ^ nat (bitlen p - 1) \<le> p" by simp
      then have "(of_int (2 ^ nat (bitlen p - 1)) :: rat) \<le> of_int p"
        by (simp only: of_int_le_iff)
      then show ?thesis by simp
    qed
    have bq: "of_int q < (2::rat) ^ nat (bitlen q)"
    proof -
      from bitlen_bounds [OF q] have "q < 2 ^ nat (bitlen q)" by simp
      then have "(of_int q :: rat) < of_int (2 ^ nat (bitlen q))"
        by (simp only: of_int_less_iff)
      then show ?thesis by simp
    qed
    have "bitlen p \<noteq> 0" using p by (simp add: bitlen_eq_zero_iff)
    with bitlen_nonneg [of p] have p1: "1 \<le> bitlen p" by linarith
    have "?k - 1 = (bitlen p - 1) - bitlen q" by simp
    then have "(2::rat) powi (?k - 1) = 2 powi ((bitlen p - 1) - bitlen q)"
      by (simp only:)
    also have "\<dots> = 2 powi (bitlen p - 1) / 2 powi (bitlen q)"
      by (rule power_int_diff) simp
    also have "\<dots> = 2 ^ nat (bitlen p - 1) / 2 ^ nat (bitlen q)"
      using p1 bitlen_nonneg [of q] by (simp add: power_int_def)
    also have "\<dots> \<le> of_int p / of_int q"
      using bp bq q p by (intro frac_le) simp_all
    finally have "(2::rat) powi (?k - 1) \<le> a"
      by (simp only: a [symmetric])
    moreover have "ilog2 a = ?k - 1"
      using False by (simp add: ilog2_def pq)
    ultimately show ?thesis by simp
  qed
qed

lemma round_even_ge: "1 \<le> q \<Longrightarrow> 1 \<le> round_even q"
proof -
  assume "1 \<le> q"
  then have "1 \<le> \<lfloor>q\<rfloor>" by simp
  then show ?thesis by (simp add: round_even_def Let_def)
qed

lemma round_double_not_small:
  assumes "2 powi (- 1074) \<le> \<bar>x\<bar>"
  shows "round_double x = Infinity \<or> round_double x = NegInfinity \<or>
         (\<exists>r. round_double x = Finite r \<and> 2 powi (- 1074) \<le> \<bar>r\<bar>)"
proof -
  have pos: "(0::rat) < 2 powi (- 1074)" by simp
  with assms have a: "0 < \<bar>x\<bar>" by linarith
  then have x: "x \<noteq> 0" by simp
  define e where "e = max (ilog2 \<bar>x\<bar> - 52) (- 1074)"
  define n where "n = round_even (\<bar>x\<bar> / 2 powi e)"
  have e: "- 1074 \<le> e" by (simp add: e_def)
  have le: "(2::rat) powi e \<le> \<bar>x\<bar>"
  proof (cases "e = - 1074")
    case True
    with assms show ?thesis by simp
  next
    case False
    then have "e = ilog2 \<bar>x\<bar> - 52" by (simp add: e_def max_def split: if_splits)
    then have "(2::rat) powi e \<le> 2 powi (ilog2 \<bar>x\<bar>)"
      by (intro power_int_increasing) simp_all
    with ilog2_le [OF a] show ?thesis by linarith
  qed
  have "1 \<le> \<bar>x\<bar> / 2 powi e"
    using le by (simp add: le_divide_eq)
  then have n: "1 \<le> n" unfolding n_def by (rule round_even_ge)
  have "(2::rat) powi (- 1074) \<le> 2 powi e"
    using e by (intro power_int_increasing) simp_all
  also have "\<dots> \<le> of_int n * 2 powi e"
  proof -
    have "1 * (2::rat) powi e \<le> of_int n * 2 powi e"
      using n by (intro mult_right_mono) simp_all
    then show ?thesis by simp
  qed
  finally have r: "2 powi (- 1074) \<le> \<bar>of_int n * (2::rat) powi e\<bar>"
    using n by (simp add: abs_mult)
  show ?thesis
    using x r unfolding round_double_def Let_def e_def [symmetric] n_def [symmetric]
    by (auto simp: abs_mult)
qed

lemma toFixed2_near:
  assumes "\<bar>x\<bar> < 10 ^ 21"
  shows "(\<exists>n::int. toFixed2 x = of_int n / 100) \<and> \<bar>toFixed2 x - x\<bar> \<le> 1 / 200"
proof (cases "x < 0")
  case True
  define f where "f = \<lfloor>(- x) * 100 + 1 / 2\<rfloor>"
  have t: "toFixed2 x = of_int (- f) / 100"
    using assms True by (simp add: toFixed2_def f_def)
  have l: "of_int f \<le> (- x) * 100 + 1 / 2" and u: "(- x) * 100 + 1 / 2 < of_int f + 1"
    unfolding f_def by linarith+
  have "\<bar>(of_int (- f) :: rat) / 100 - x\<bar> \<le> 1 / 200"
    using l u by (simp only: abs_le_iff of_int_minus, safe; linarith)
  then show ?thesis unfolding t by blast
next
  case False
  define f where "f = \<lfloor>x * 100 + 1 / 2\<rfloor>"
  have t: "toFixed2 x = of_int f / 100"
    using assms False by (simp add: toFixed2_def f_def)
  have l: "of_int f \<le> x * 100 + 1 / 2" and u: "x * 100 + 1 / 2 < of_int f + 1"
    unfolding f_def by linarith+
  have "\<bar>(of_int f :: rat) / 100 - x\<bar> \<le> 1 / 200"
    using l u by (simp only: abs_le_iff, safe; linarith)
  then show ?thesis unfolding t by blast
qed

subsection \<open>The loop over the current stats\<close>

lemma addedOrChanged_removed [simp]: "removed (addedOrChanged cfg ms x d) = removed d"
  by (cases x) (simp add: addedOrChanged_def addNewFile_def processChangedFile_def Let_def
      split: option.splits)

lemma addedOrChanged_added:
  "map_of (added (addedOrChanged cfg ms (k, v) d)) f =
     (if f = k \<and> map_of ms k = None then Some v else map_of (added d) f)"
  by (simp add: addedOrChanged_def addNewFile_def processChangedFile_def Let_def update_conv'
      split: option.splits)

lemma addedOrChanged_changed:
  "map_of (changed (addedOrChanged cfg ms (k, v) d)) f =
     (case map_of ms k of
        None \<Rightarrow> map_of (changed d) f
      | Some md \<Rightarrow>
          if f = k \<and> js_ge (sizeDiffPercent v md) (round_double (changeThreshold cfg))
          then Some \<lparr>current = size' v, master = size' md, difference = toFixed2_of (sizeDiff v md)\<rparr>
          else map_of (changed d) f)"
  by (simp add: addedOrChanged_def addNewFile_def processChangedFile_def Let_def update_conv'
      split: option.splits)

lemma addedOrChanged_same:
  "map_of (same (addedOrChanged cfg ms (k, v) d)) f =
     (case map_of ms k of
        None \<Rightarrow> map_of (same d) f
      | Some md \<Rightarrow>
          if f = k \<and> \<not> js_ge (sizeDiffPercent v md) (round_double (changeThreshold cfg))
          then Some (size' v)
          else map_of (same d) f)"
  by (simp add: addedOrChanged_def addNewFile_def processChangedFile_def Let_def update_conv'
      split: option.splits)

lemma addedOrChanged_distinct:
  assumes "distinct (map fst (added d))" "distinct (map fst (changed d))" "distinct (map fst (same d))"
  shows "distinct (map fst (added (addedOrChanged cfg ms x d))) \<and>
         distinct (map fst (changed (addedOrChanged cfg ms x d))) \<and>
         distinct (map fst (same (addedOrChanged cfg ms x d)))"
  using assms
  by (cases x) (simp add: addedOrChanged_def addNewFile_def processChangedFile_def Let_def
      distinct_update split: option.splits)

lemma fold_addedOrChanged_removed [simp]:
  "removed (fold (addedOrChanged cfg ms) cs d) = removed d"
  by (induction cs arbitrary: d) simp_all

lemma fold_addedOrChanged_distinct:
  assumes "distinct (map fst (added d))" "distinct (map fst (changed d))" "distinct (map fst (same d))"
  shows "distinct (map fst (added (fold (addedOrChanged cfg ms) cs d))) \<and>
         distinct (map fst (changed (fold (addedOrChanged cfg ms) cs d))) \<and>
         distinct (map fst (same (fold (addedOrChanged cfg ms) cs d)))"
  using assms
proof (induction cs arbitrary: d)
  case Nil
  then show ?case by simp
next
  case (Cons x cs)
  from addedOrChanged_distinct [OF Cons.prems, of cfg ms x] Cons.IH [of "addedOrChanged cfg ms x d"]
  show ?case by simp
qed

lemma fold_addedOrChanged_added:
  assumes "distinct (map fst cs)"
  shows "map_of (added (fold (addedOrChanged cfg ms) cs d)) f =
     (case map_of cs f of
        None \<Rightarrow> map_of (added d) f
      | Some v \<Rightarrow> (case map_of ms f of None \<Rightarrow> Some v | Some md \<Rightarrow> map_of (added d) f))"
  using assms
proof (induction cs arbitrary: d)
  case Nil
  then show ?case by simp
next
  case (Cons x cs)
  obtain k v where x: "x = (k, v)" by (cases x)
  from Cons.prems have k: "map_of cs k = None" and dc: "distinct (map fst cs)"
    by (auto simp: x map_of_eq_None_iff)
  show ?case
    using k by (auto simp: x Cons.IH [OF dc] addedOrChanged_added split: option.splits)
qed

lemma fold_addedOrChanged_changed:
  assumes "distinct (map fst cs)"
  shows "map_of (changed (fold (addedOrChanged cfg ms) cs d)) f =
     (case map_of cs f of
        None \<Rightarrow> map_of (changed d) f
      | Some v \<Rightarrow>
          (case map_of ms f of
             None \<Rightarrow> map_of (changed d) f
           | Some md \<Rightarrow>
               if js_ge (sizeDiffPercent v md) (round_double (changeThreshold cfg))
               then Some \<lparr>current = size' v, master = size' md,
                          difference = toFixed2_of (sizeDiff v md)\<rparr>
               else map_of (changed d) f))"
  using assms
proof (induction cs arbitrary: d)
  case Nil
  then show ?case by simp
next
  case (Cons x cs)
  obtain k v where x: "x = (k, v)" by (cases x)
  from Cons.prems have k: "map_of cs k = None" and dc: "distinct (map fst cs)"
    by (auto simp: x map_of_eq_None_iff)
  show ?case
    using k by (auto simp: x Cons.IH [OF dc] addedOrChanged_changed split: option.splits)
qed

lemma fold_addedOrChanged_same:
  assumes "distinct (map fst cs)"
  shows "map_of (same (fold (addedOrChanged cfg ms) cs d)) f =
     (case map_of cs f of
        None \<Rightarrow> map_of (same d) f
      | Some v \<Rightarrow>
          (case map_of ms f of
             None \<Rightarrow> map_of (same d) f
           | Some md \<Rightarrow>
               if \<not> js_ge (sizeDiffPercent v md) (round_double (changeThreshold cfg))
               then Some (size' v)
               else map_of (same d) f))"
  using assms
proof (induction cs arbitrary: d)
  case Nil
  then show ?case by simp
next
  case (Cons x cs)
  obtain k v where x: "x = (k, v)" by (cases x)
  from Cons.prems have k: "map_of cs k = None" and dc: "distinct (map fst cs)"
    by (auto simp: x map_of_eq_None_iff)
  show ?case
    using k by (auto simp: x Cons.IH [OF dc] addedOrChanged_same split: option.splits)
qed

subsection \<open>The loop over the master stats\<close>

lemma removedFile_others [simp]:
  "added (removedFile cs x d) = added d" "changed (removedFile cs x d) = changed d"
  "same (removedFile cs x d) = same d"
  by (cases x; simp add: removedFile_def split: option.splits)+

lemma fold_removedFile_others [simp]:
  "added (fold (removedFile cs) ms d) = added d" "changed (fold (removedFile cs) ms d) = changed d"
  "same (fold (removedFile cs) ms d) = same d"
  by (induction ms arbitrary: d; simp)+

lemma removedFile_removed:
  "map_of (removed (removedFile cs (k, v) d)) f =
     (if f = k \<and> map_of cs k = None then Some v else map_of (removed d) f)"
  by (simp add: removedFile_def update_conv' split: option.splits)

lemma removedFile_distinct:
  "distinct (map fst (removed d)) \<Longrightarrow> distinct (map fst (removed (removedFile cs x d)))"
  by (cases x) (simp add: removedFile_def distinct_update split: option.splits)

lemma fold_removedFile_distinct:
  "distinct (map fst (removed d)) \<Longrightarrow> distinct (map fst (removed (fold (removedFile cs) ms d)))"
  by (induction ms arbitrary: d) (simp_all add: removedFile_distinct)

lemma fold_removedFile_removed:
  assumes "distinct (map fst ms)"
  shows "map_of (removed (fold (removedFile cs) ms d)) f =
     (case map_of ms f of
        None \<Rightarrow> map_of (removed d) f
      | Some v \<Rightarrow> (case map_of cs f of None \<Rightarrow> Some v | Some cd \<Rightarrow> map_of (removed d) f))"
  using assms
proof (induction ms arbitrary: d)
  case Nil
  then show ?case by simp
next
  case (Cons x ms)
  obtain k v where x: "x = (k, v)" by (cases x)
  from Cons.prems have k: "map_of ms k = None" and dc: "distinct (map fst ms)"
    by (auto simp: x map_of_eq_None_iff)
  show ?case
    using k by (auto simp: x Cons.IH [OF dc] removedFile_removed split: option.splits)
qed

subsection \<open>The computed diff\<close>

lemma compareBundleSizes_reads:
  assumes "files fs (path_join cwd [outputFolder cfg, masterFile cfg]) = Some (Stats ms)"
    and "files fs (path_join cwd [outputFolder cfg, currentFile cfg]) = Some (Stats cs)"
  shows "compareBundleSizes cfg cwd fs = Inr (computeDiff cfg ms cs)"
  using assms by (simp add: compareBundleSizes_def Let_def existsSync_def readJsonFile_def)

lemma initializeDiff_maps [simp]:
  "added initializeDiff = []" "removed initializeDiff = []" "changed initializeDiff = []"
  "same initializeDiff = []"
  by (simp_all add: initializeDiff_def)

lemma computeDiff_added:
  "added (computeDiff cfg ms cs) = added (fold (addedOrChanged cfg ms) cs initializeDiff)"
  by (simp add: computeDiff_def finalizeDiff_def processRemovedFiles_def
      processAddedAndChangedFiles_def Let_def)

lemma computeDiff_same:
  "same (computeDiff cfg ms cs) = same (fold (addedOrChanged cfg ms) cs initializeDiff)"
  by (simp add: computeDiff_def finalizeDiff_def processRemovedFiles_def
      processAddedAndChangedFiles_def Let_def)

lemma fold_removedFile_cong:
  "removed d = removed d' \<Longrightarrow>
   removed (fold (removedFile cs) ms d) = removed (fold (removedFile cs) ms d')"
proof (induction ms arbitrary: d d')
  case Nil
  then show ?case by simp
next
  case (Cons x ms)
  have "removed (removedFile cs x d) = removed (removedFile cs x d')"
    using Cons.prems by (cases x) (simp add: removedFile_def split: option.splits)
  from Cons.IH [OF this] show ?case by simp
qed

lemma computeDiff_removed:
  "removed (computeDiff cfg ms cs) = removed (fold (removedFile cs) ms initializeDiff)"
proof -
  have "removed (processAddedAndChangedFiles cfg ms cs initializeDiff) = removed initializeDiff"
    by (simp add: processAddedAndChangedFiles_def Let_def)
  from fold_removedFile_cong [OF this, of cs ms] show ?thesis
    by (simp add: computeDiff_def finalizeDiff_def processRemovedFiles_def)
qed

lemma computeDiff_changed:
  "changed (computeDiff cfg ms cs) =
     Array_sort (\<lambda>(ka, a) (kb, b). difference b - difference a)
       (changed (fold (addedOrChanged cfg ms) cs initializeDiff))"
proof -
  let ?d = "fold (addedOrChanged cfg ms) cs initializeDiff"
  have dist: "distinct (map fst (changed ?d))"
    using fold_addedOrChanged_distinct [of initializeDiff cfg ms cs] by simp
  have "changed (computeDiff cfg ms cs) =
      (if length (changed ?d) \<noteq> 0 then sortChangedFiles (changed ?d) else changed ?d)"
    by (simp add: computeDiff_def finalizeDiff_def processRemovedFiles_def
        processAddedAndChangedFiles_def Let_def)
  also have "\<dots> = Array_sort (\<lambda>(ka, a) (kb, b). difference b - difference a) (changed ?d)"
    using sortChangedFiles_eq [OF dist] by (simp add: Array_sort_def)
  finally show ?thesis .
qed

lemma computeDiff_distinct:
  "distinct (map fst (added (computeDiff cfg ms cs)))"
  "distinct (map fst (removed (computeDiff cfg ms cs)))"
  "distinct (map fst (changed (computeDiff cfg ms cs)))"
  "distinct (map fst (same (computeDiff cfg ms cs)))"
  using fold_addedOrChanged_distinct [of initializeDiff cfg ms cs]
    fold_removedFile_distinct [of initializeDiff cs ms]
  by (simp_all add: computeDiff_added computeDiff_same computeDiff_removed computeDiff_changed
      distinct_Array_sort)

lemma map_of_added_computeDiff:
  assumes "distinct (map fst cs)"
  shows "map_of (added (computeDiff cfg ms cs)) f =
     (case map_of cs f of
        None \<Rightarrow> None
      | Some v \<Rightarrow> (case map_of ms f of None \<Rightarrow> Some v | Some md \<Rightarrow> None))"
  by (simp add: computeDiff_added fold_addedOrChanged_added [OF assms] split: option.splits)

lemma map_of_removed_computeDiff:
  assumes "distinct (map fst ms)"
  shows "map_of (removed (computeDiff cfg ms cs)) f =
     (case map_of ms f of
        None \<Rightarrow> None
      | Some v \<Rightarrow> (case map_of cs f of None \<Rightarrow> Some v | Some cd \<Rightarrow> None))"
  by (simp add: computeDiff_removed fold_removedFile_removed [OF assms] split: option.splits)

lemma map_of_same_computeDiff:
  assumes "distinct (map fst cs)"
  shows "map_of (same (computeDiff cfg ms cs)) f =
     (case map_of cs f of
        None \<Rightarrow> None
      | Some v \<Rightarrow>
          (case map_of ms f of
             None \<Rightarrow> None
           | Some md \<Rightarrow>
               if \<not> js_ge (sizeDiffPercent v md) (round_double (changeThreshold cfg)) then Some (size' v)
               else None))"
  by (simp add: computeDiff_same fold_addedOrChanged_same [OF assms] split: option.splits)

lemma map_of_changed_computeDiff:
  assumes "distinct (map fst cs)"
  shows "map_of (changed (computeDiff cfg ms cs)) f =
     (case map_of cs f of
        None \<Rightarrow> None
      | Some v \<Rightarrow>
          (case map_of ms f of
             None \<Rightarrow> None
           | Some md \<Rightarrow>
               if js_ge (sizeDiffPercent v md) (round_double (changeThreshold cfg))
               then Some \<lparr>current = size' v, master = size' md,
                          difference = toFixed2_of (sizeDiff v md)\<rparr>
               else None))"
proof -
  have "distinct (map fst (changed (fold (addedOrChanged cfg ms) cs initializeDiff)))"
    using fold_addedOrChanged_distinct [of initializeDiff cfg ms cs] by simp
  then show ?thesis
    by (simp add: computeDiff_changed map_of_Array_sort fold_addedOrChanged_changed [OF assms]
        split: option.splits)
qed

lemma keys_conv: "(f \<in> fst ` set xs) = (map_of xs f \<noteq> None)"
  by (simp add: map_of_eq_None_iff)

lemma computeDiff_keys:
  assumes "distinct (map fst ms)" "distinct (map fst cs)"
  shows "f \<in> fst ` set (added (computeDiff cfg ms cs)) \<longleftrightarrow>
           f \<in> fst ` set cs \<and> f \<notin> fst ` set ms"
    and "f \<in> fst ` set (removed (computeDiff cfg ms cs)) \<longleftrightarrow>
           f \<in> fst ` set ms \<and> f \<notin> fst ` set cs"
    and "f \<in> fst ` set (changed (computeDiff cfg ms cs)) \<or>
         f \<in> fst ` set (same (computeDiff cfg ms cs)) \<longleftrightarrow>
           f \<in> fst ` set cs \<and> f \<in> fst ` set ms"
    and "\<not> (f \<in> fst ` set (changed (computeDiff cfg ms cs)) \<and>
            f \<in> fst ` set (same (computeDiff cfg ms cs)))"
  unfolding keys_conv map_of_added_computeDiff [OF assms(2)] map_of_removed_computeDiff [OF assms(1)]
    map_of_same_computeDiff [OF assms(2)] map_of_changed_computeDiff [OF assms(2)]
  by (auto split: option.splits)

subsection \<open>The percentage and the order of the changed files\<close>

lemma js_add_not_NaN_zero: "x \<noteq> NaN \<Longrightarrow> js_add x (Finite 0) \<noteq> NaN"
  by (cases x) simp_all

lemma sizeDiff_zero_baseline:
  assumes "size' masterData = 0"
  shows "sizeDiff currentData masterData = js_add (round_double (size' currentData)) (Finite 0)"
  using assms by (simp add: sizeDiff_def js_sub_def)

lemma sizeDiffPercent_zero:
  assumes "size' masterData = 0"
  shows "sizeDiffPercent currentData masterData =
     (if sizeDiff currentData masterData = Finite 0 then NaN else Infinity)"
proof -
  have "sizeDiff currentData masterData \<noteq> NaN"
    unfolding sizeDiff_zero_baseline [OF assms] by (rule js_add_not_NaN_zero) simp
  then show ?thesis
    using assms by (cases "sizeDiff currentData masterData") (simp_all add: sizeDiffPercent_def)
qed

lemma sizeDiff_zero_zero:
  "size' masterData = 0 \<Longrightarrow> size' currentData = 0 \<Longrightarrow>
   sizeDiff currentData masterData = Finite 0"
  by (simp add: sizeDiff_def js_sub_def)

lemma sizeDiff_zero_nonzero:
  assumes "size' masterData = 0" and "2 powi (- 1074) \<le> \<bar>size' currentData\<bar>"
  shows "sizeDiff currentData masterData \<noteq> Finite 0"
proof -
  have pos: "(0::rat) < 2 powi (- 1074)" by simp
  from round_double_not_small [OF assms(2)]
  consider "round_double (size' currentData) = Infinity"
    | "round_double (size' currentData) = NegInfinity"
    | r where "round_double (size' currentData) = Finite r" "2 powi (- 1074) \<le> \<bar>r\<bar>"
    by blast
  then show ?thesis
  proof cases
    case 1
    then show ?thesis by (simp add: sizeDiff_zero_baseline [OF assms(1)])
  next
    case 2
    then show ?thesis by (simp add: sizeDiff_zero_baseline [OF assms(1)])
  next
    case 3
    from round_double_not_small [OF 3(2)] pos show ?thesis
      by (auto simp: sizeDiff_zero_baseline [OF assms(1)] 3(1))
  qed
qed

lemma sizeDiffPercent_finite:
  assumes "round_double (size' masterData) = Finite m" and "m \<noteq> 0"
    and "sizeDiff currentData masterData = Finite sd"
  shows "sizeDiffPercent currentData masterData =
     Math_abs (js_mul (round_double (sd / m)) (Finite 100))"
  using assms by (simp add: sizeDiffPercent_def)

lemma Math_abs_not_NaN: "x \<noteq> NaN \<Longrightarrow> Math_abs x \<noteq> NaN"
  by (cases x) simp_all

lemma js_mul_100_not_NaN: "x \<noteq> NaN \<Longrightarrow> js_mul x (Finite 100) \<noteq> NaN"
  by (cases x) simp_all

lemma js_gt_Finite_0 [simp]: "js_gt (Finite x) (Finite 0) = (0 < x)"
  by (auto simp: js_gt_def)

lemma compareBundleSizes_Inr:
  assumes "compareBundleSizes cfg cwd fs = Inr d"
  shows "\<exists>ms cs. d = computeDiff cfg ms cs"
  using assms
  by (auto simp: compareBundleSizes_def Let_def split: if_splits sum.splits)

lemma changed_computeDiff_ordered:
  "ordered_by_difference (changed (computeDiff cfg ms cs))"
proof -
  have cmp: "(\<lambda>(ka, a) (kb, b). difference b - difference a) =
      (\<lambda>x y. (difference \<circ> snd) y - (difference \<circ> snd) x)"
    by (simp add: fun_eq_iff)
  show ?thesis
    unfolding ordered_by_difference_def computeDiff_changed cmp
    using sorted_Array_sort [of "difference \<circ> snd"] by simp
qed

subsection \<open>The size check\<close>

lemma startsWith_iff: "startsWith s sub \<longleftrightarrow> (\<exists>q. s = sub @ q)"
  by (induction s sub rule: startsWith.induct) auto

lemma String_includes_iff: "String_includes s sub \<longleftrightarrow> (\<exists>p q. s = p @ sub @ q)"
proof (induction s)
  case Nil
  then show ?case by auto
next
  case (Cons x xs)
  show ?case
  proof
    assume "String_includes (x # xs) sub"
    then consider "startsWith (x # xs) sub" | "String_includes xs sub" by auto
    then show "\<exists>p q. x # xs = p @ sub @ q"
    proof cases
      case 1
      then obtain q where "x # xs = sub @ q" by (auto simp: startsWith_iff)
      then have "x # xs = [] @ sub @ q" by simp
      then show ?thesis by blast
    next
      case 2
      then obtain p q where "xs = p @ sub @ q" using Cons.IH by auto
      then have "x # xs = (x # p) @ sub @ q" by simp
      then show ?thesis by blast
    qed
  next
    assume "\<exists>p q. x # xs = p @ sub @ q"
    then obtain p q where pq: "x # xs = p @ sub @ q" by auto
    show "String_includes (x # xs) sub"
    proof (cases p)
      case Nil
      with pq have "startsWith (x # xs) sub" by (auto simp: startsWith_iff)
      then show ?thesis by simp
    next
      case (Cons y ys)
      with pq have "xs = ys @ sub @ q" by simp
      then have "String_includes xs sub" using Cons.IH by blast
      then show ?thesis by simp
    qed
  qed
qed

lemma extractFileSizes_keys:
  "fst ` set (extractFileSizes d) = fst ` set (added d) \<union> fst ` set (changed d)"
proof -
  have "fst ` set (Object_fromEntries xs) = fst ` set xs" for xs :: "(string \<times> rat) list"
    unfolding Object_fromEntries_def using fold_update_keys [of xs "[]"] by simp
  then show ?thesis
    by (simp add: extractFileSizes_def Let_def fold_update_keys image_image case_prod_beta)
qed

lemma extractFileSizes_distinct: "distinct (map fst (extractFileSizes d))"
proof -
  have "distinct (map fst (Object_fromEntries xs))" for xs :: "(string \<times> rat) list"
    unfolding Object_fromEntries_def by (rule fold_update_distinct) simp
  then show ?thesis
    by (simp add: extractFileSizes_def Let_def fold_update_distinct)
qed

lemma fold_checkFile_above:
  "set (aboveAverageFiles (fold (checkFile cfg) fl ff)) =
     set (aboveAverageFiles ff) \<union>
     {\<lparr>fileName = n, fileSize = s\<rparr> | n s. (n, s) \<in> set fl \<and> isAboveAverageFile cfg n s}"
proof (induction fl arbitrary: ff)
  case Nil
  then show ?case by simp
next
  case (Cons x fl)
  obtain n s where x: "x = (n, s)" by (cases x)
  show ?case
    unfolding x fold_simps Cons.IH
    by (auto simp: checkFile_def)
qed

lemma fold_checkFile_below:
  "set (belowAverageFiles (fold (checkFile cfg) fl ff)) =
     set (belowAverageFiles ff) \<union>
     {\<lparr>fileName = n, fileSize = s\<rparr> | n s.
        (n, s) \<in> set fl \<and> \<not> isAboveAverageFile cfg n s \<and> isBelowAverageFile cfg n s}"
proof (induction fl arbitrary: ff)
  case Nil
  then show ?case by simp
next
  case (Cons x fl)
  obtain n s where x: "x = (n, s)" by (cases x)
  show ?case
    unfolding x fold_simps Cons.IH
    by (auto simp: checkFile_def)
qed

lemma checkFileSize_above:
  "set (aboveAverageFiles (checkFileSize cfg d)) =
     {\<lparr>fileName = n, fileSize = s\<rparr> | n s.
        (n, s) \<in> set (extractFileSizes d) \<and> isAboveAverageFile cfg n s}"
  by (simp add: checkFileSize_def fold_checkFile_above)

lemma checkFileSize_below:
  "set (belowAverageFiles (checkFileSize cfg d)) =
     {\<lparr>fileName = n, fileSize = s\<rparr> | n s.
        (n, s) \<in> set (extractFileSizes d) \<and> \<not> isAboveAverageFile cfg n s \<and>
        isBelowAverageFile cfg n s}"
  by (simp add: checkFileSize_def fold_checkFile_below)

lemma checkFileSize_names:
  "fileName ` set (aboveAverageFiles (checkFileSize cfg d)) \<union>
   fileName ` set (belowAverageFiles (checkFileSize cfg d)) \<subseteq>
     fst ` set (added d) \<union> fst ` set (changed d)"
  unfolding checkFileSize_above checkFileSize_below extractFileSizes_keys [symmetric]
  by force

lemma set_update_subset: "set (AList.update k v al) \<subseteq> insert (k, v) (set al)"
  by (induction al) auto

lemma set_fold_update_subset:
  "set (fold (\<lambda>(k, v) obj. AList.update k v obj) xs acc) \<subseteq> set acc \<union> set xs"
proof (induction xs arbitrary: acc)
  case Nil
  then show ?case by simp
next
  case (Cons x xs)
  obtain k v where x: "x = (k, v)" by (cases x)
  show ?case
    using Cons.IH [of "AList.update k v acc"] set_update_subset [of k v acc]
    by (auto simp: x)
qed

lemma extractFileSizes_sizes:
  assumes "(n, s) \<in> set (extractFileSizes d)"
  shows "(\<exists>e. (n, e) \<in> set (added d) \<and> s = size' e) \<or>
         (\<exists>e. (n, e) \<in> set (changed d) \<and> s = current e)"
proof -
  have "set (Object_fromEntries xs) \<subseteq> set xs" for xs :: "(string \<times> rat) list"
    unfolding Object_fromEntries_def using set_fold_update_subset [of xs "[]"] by simp
  then have "set (extractFileSizes d) \<subseteq>
      set (map (\<lambda>(name, fileData). (name, size' fileData)) (added d)) \<union>
      set (map (\<lambda>(name, fileData). (name, current fileData)) (changed d))"
    unfolding extractFileSizes_def Let_def
    using set_fold_update_subset
      [of "Object_fromEntries (map (\<lambda>(name, fileData). (name, current fileData)) (changed d))"
        "Object_fromEntries (map (\<lambda>(name, fileData). (name, size' fileData)) (added d))"]
    by blast
  with assms show ?thesis by auto
qed

lemma name_of_selected:
  assumes "distinct (map fst fl)" and "(n, s) \<in> set fl"
  shows "n \<in> fileName ` {\<lparr>fileName = a, fileSize = b\<rparr> | a b. (a, b) \<in> set fl \<and> P a b} \<longleftrightarrow> P n s"
proof
  assume "n \<in> fileName ` {\<lparr>fileName = a, fileSize = b\<rparr> | a b. (a, b) \<in> set fl \<and> P a b}"
  then obtain a b where ab: "(a, b) \<in> set fl" "P a b" "n = a" by auto
  from ab(1,3) assms(2) have "b = s"
    using eq_key_imp_eq_value [OF assms(1), of n b s] by simp
  with ab show "P n s" by simp
next
  assume "P n s"
  with assms(2) have "\<lparr>fileName = n, fileSize = s\<rparr> \<in>
      {\<lparr>fileName = a, fileSize = b\<rparr> | a b. (a, b) \<in> set fl \<and> P a b}" by blast
  then have "fileName \<lparr>fileName = n, fileSize = s\<rparr> \<in>
      fileName ` {\<lparr>fileName = a, fileSize = b\<rparr> | a b. (a, b) \<in> set fl \<and> P a b}"
    by (rule imageI)
  then show "n \<in> fileName ` {\<lparr>fileName = a, fileSize = b\<rparr> | a b. (a, b) \<in> set fl \<and> P a b}"
    by simp
qed

lemma size_of_selected:
  assumes "distinct (map fst fl)" and "(n, s) \<in> set fl"
    and "x \<in> {\<lparr>fileName = a, fileSize = b\<rparr> | a b. (a, b) \<in> set fl \<and> P a b}"
    and "fileName x = n"
  shows "fileSize x = s"
proof -
  from assms(3) obtain a b where ab: "(a, b) \<in> set fl" "x = \<lparr>fileName = a, fileSize = b\<rparr>"
    by auto
  with assms(4) have "(n, b) \<in> set fl" by simp
  then have "b = s" using eq_key_imp_eq_value [OF assms(1), of n b s] assms(2) by simp
  with ab show ?thesis by simp
qed

subsection \<open>Normalization\<close>

lemma matches_at_end_iff: "matches_at_end p s \<longleftrightarrow> (\<exists>u v. s = u @ v \<and> p v)"
proof (induction s)
  case Nil
  then show ?case by simp
next
  case (Cons c cs)
  show ?case
  proof
    assume "matches_at_end p (c # cs)"
    then consider "p (c # cs)" | "matches_at_end p cs" by auto
    then show "\<exists>u v. c # cs = u @ v \<and> p v"
    proof cases
      case 1
      then have "c # cs = [] @ (c # cs) \<and> p (c # cs)" by simp
      then show ?thesis by blast
    next
      case 2
      with Cons.IH obtain u v where "cs = u @ v" "p v" by auto
      then have "c # cs = (c # u) @ v \<and> p v" by simp
      then show ?thesis by blast
    qed
  next
    assume "\<exists>u v. c # cs = u @ v \<and> p v"
    then obtain u v where uv: "c # cs = u @ v" "p v" by auto
    show "matches_at_end p (c # cs)"
    proof (cases u)
      case Nil
      with uv have "p (c # cs)" by simp
      then show ?thesis by simp
    next
      case (Cons a u')
      with uv have "cs = u' @ v" by simp
      with uv(2) Cons.IH have "matches_at_end p cs" by blast
      then show ?thesis by simp
    qed
  qed
qed

lemma replace_at_end_no_match:
  "\<not> matches_at_end p s \<Longrightarrow> replace_at_end p rep s = s"
  by (induction s) auto

lemma replace_at_end_unique:
  assumes "p v" and "\<And>u' v'. u @ v = u' @ v' \<Longrightarrow> p v' \<Longrightarrow> u' = u"
  shows "replace_at_end p rep (u @ v) = u @ rep"
  using assms(2)
proof (induction u)
  case Nil
  with assms(1) show ?case by (cases v) simp_all
next
  case (Cons c u)
  have "\<not> p ((c # u) @ v)"
  proof
    assume "p ((c # u) @ v)"
    with Cons.prems [of "[]" "(c # u) @ v"] show False by simp
  qed
  moreover have "replace_at_end p rep (u @ v) = u @ rep"
  proof (rule Cons.IH)
    fix u' v'
    assume "u @ v = u' @ v'" "p v'"
    with Cons.prems [of "c # u'" v'] show "u' = u" by simp
  qed
  ultimately show ?case by simp
qed

lemma strips_replace_at_end: "strips p s (replace_at_end p ''.js'' s)"
proof (induction s)
  case Nil
  show ?case
  proof (cases "p []")
    case True
    then show ?thesis unfolding strips_def by (intro disjI1 exI [of _ "[]"]) simp
  next
    case False
    then show ?thesis unfolding strips_def by simp
  qed
next
  case (Cons c cs)
  show ?case
  proof (cases "p (c # cs)")
    case True
    then have "c # cs = [] @ (c # cs) \<and> p (c # cs) \<and>
        (\<forall>u' v'. c # cs = u' @ v' \<and> length u' < length ([]::string) \<longrightarrow> \<not> p v') \<and>
        replace_at_end p ''.js'' (c # cs) = [] @ ''.js''"
      by simp
    then show ?thesis unfolding strips_def by blast
  next
    case False
    from Cons.IH consider
      (hit) u v where "cs = u @ v" "p v"
        "\<forall>u' v'. cs = u' @ v' \<and> length u' < length u \<longrightarrow> \<not> p v'"
        "replace_at_end p ''.js'' cs = u @ ''.js''"
      | (miss) "\<forall>u v. cs = u @ v \<longrightarrow> \<not> p v" "replace_at_end p ''.js'' cs = cs"
      unfolding strips_def by blast
    then show ?thesis
    proof cases
      case hit
      have least: "\<not> p v'" if "c # cs = u' @ v'" "length u' < length (c # u)" for u' v'
      proof (cases u')
        case Nil
        with that False show ?thesis by simp
      next
        case (Cons a w)
        with that have "cs = w @ v'" "length w < length u" by simp_all
        with hit(3) show ?thesis by blast
      qed
      have "c # cs = (c # u) @ v \<and> p v \<and>
          (\<forall>u' v'. c # cs = u' @ v' \<and> length u' < length (c # u) \<longrightarrow> \<not> p v') \<and>
          replace_at_end p ''.js'' (c # cs) = (c # u) @ ''.js''"
        using hit False least by simp
      then show ?thesis unfolding strips_def by blast
    next
      case miss
      have "\<not> p v" if "c # cs = u @ v" for u v
      proof (cases u)
        case Nil
        with that False show ?thesis by simp
      next
        case (Cons a w)
        with that have "cs = w @ v" by simp
        with miss(1) show ?thesis by blast
      qed
      then show ?thesis
        unfolding strips_def using miss(2) False by simp
    qed
  qed
qed

lemma matches_hash_iff:
  "matches_hash sep k v \<longleftrightarrow>
     (\<exists>h e. v = sep # h @ e \<and> length e = 3 \<and> k \<le> length h \<and> list_all is_hex h \<and> is_dot_js e)"
proof
  assume m: "matches_hash sep k v"
  then obtain rest where v: "v = sep # rest" and r: "3 \<le> length rest"
    "is_dot_js (drop (length rest - 3) rest)" "k \<le> length rest - 3"
    "list_all is_hex (take (length rest - 3) rest)"
    by (auto simp: matches_hash_def split: list.splits)
  have "v = sep # take (length rest - 3) rest @ drop (length rest - 3) rest"
    by (simp add: v)
  moreover have "length (drop (length rest - 3) rest) = 3" using r(1) by simp
  moreover have "k \<le> length (take (length rest - 3) rest)" using r(3) by simp
  ultimately show "\<exists>h e. v = sep # h @ e \<and> length e = 3 \<and> k \<le> length h \<and> list_all is_hex h \<and>
      is_dot_js e"
    using r(2,4) by blast
next
  assume "\<exists>h e. v = sep # h @ e \<and> length e = 3 \<and> k \<le> length h \<and> list_all is_hex h \<and> is_dot_js e"
  then obtain h e where "v = sep # h @ e" "length e = 3" "k \<le> length h" "list_all is_hex h"
    "is_dot_js e" by blast
  then show "matches_hash sep k v"
    by (simp add: matches_hash_def)
qed

lemma run_unique:
  assumes "xs @ a # ys = xs' @ a' # ys'" and "list_all P xs" and "list_all P xs'"
    and "\<not> P a" and "\<not> P a'"
  shows "xs = xs' \<and> a = a' \<and> ys = ys'"
proof -
  have "takeWhile P (xs @ a # ys) = xs"
    using assms(2,4) by (simp add: takeWhile_tail list_all_iff)
  moreover have "takeWhile P (xs' @ a' # ys') = xs'"
    using assms(3,5) by (simp add: takeWhile_tail list_all_iff)
  ultimately have "xs = xs'" using assms(1) by simp
  with assms(1) show ?thesis by simp
qed

lemma hash_match_unique:
  assumes "u @ v = u' @ v'" and "matches_hash sep k v" and "matches_hash sep' k' v'"
    and "\<not> is_hex sep" and "\<not> is_hex sep'"
  shows "u = u' \<and> sep = sep'"
proof -
  from assms(2) obtain h e where v: "v = sep # h @ e" "length e = 3" "list_all is_hex h"
    unfolding matches_hash_iff by blast
  from assms(3) obtain h' e' where v': "v' = sep' # h' @ e'" "length e' = 3" "list_all is_hex h'"
    unfolding matches_hash_iff by blast
  from assms(1) have "(u @ sep # h) @ e = (u' @ sep' # h') @ e'"
    by (simp add: v v')
  with v(2) v'(2) have "u @ sep # h = u' @ sep' # h'"
    by (metis append_eq_append_conv)
  then have "rev h @ sep # rev u = rev h' @ sep' # rev u'"
    by (metis rev.simps(2) rev_append rev_rev_ident append.assoc append_Cons append_Nil)
  moreover have "list_all is_hex (rev h)" "list_all is_hex (rev h')"
    using v(3) v'(3) by (simp_all add: list_all_iff)
  ultimately have "sep = sep' \<and> rev u = rev u'"
    using run_unique [of "rev h" sep "rev u" "rev h'" sep' "rev u'" is_hex] assms(4,5) by blast
  then show ?thesis by simp
qed

lemma not_hex_sep [simp]: "\<not> is_hex CHR ''.''" "\<not> is_hex CHR ''-''"
  by (simp_all add: is_hex_def)

lemma hex_not_k: "is_hex c \<Longrightarrow> lower_ascii c \<noteq> CHR ''k''"
proof -
  have "list_all (\<lambda>c. lower_ascii c \<noteq> CHR ''k'') ''0123456789abcdefABCDEF''"
    by code_simp
  then show "is_hex c \<Longrightarrow> lower_ascii c \<noteq> CHR ''k''"
    unfolding is_hex_def list_all_iff by blast
qed

lemma chunk_match_parts:
  assumes "matches_chunk v"
  shows "length v = 9 \<and> lower_ascii (v ! 5) = CHR ''k''"
proof -
  from assms have m: "map lower_ascii v = ''.chunk.js''" by (simp add: matches_chunk_def)
  then have "length (map lower_ascii v) = length ''.chunk.js''" by (simp only:)
  then have l: "length v = 9" by simp
  have "lower_ascii (v ! 5) = map lower_ascii v ! 5" using l by simp
  with m l show ?thesis by simp
qed

lemma chunk_excludes_hash:
  assumes "u @ v = u' @ v'" and "matches_chunk v" and "matches_hash sep k v'" and "1 \<le> k"
  shows False
proof -
  from assms(3) obtain h e where v': "v' = sep # h @ e" "length e = 3" "k \<le> length h"
    "list_all is_hex h"
    unfolding matches_hash_iff by blast
  from v'(3) assms(4) have "h \<noteq> []" by auto
  then have h: "h = butlast h @ [last h]" by simp
  have hex: "is_hex (last h)"
    using v'(4) \<open>h \<noteq> []\<close> by (simp add: list_all_iff)
  from chunk_match_parts [OF assms(2)] have l: "length v = 9"
    and k: "lower_ascii (v ! 5) = CHR ''k''" by simp_all
  have v: "v = take 5 v @ v ! 5 # drop (Suc 5) v"
    using l by (intro id_take_nth_drop) simp
  have "u' @ v' = (u' @ sep # butlast h) @ (last h # e)"
    using h by (metis v'(1) append.assoc append_Cons append_Nil)
  moreover have "u @ v = (u @ take 5 v) @ (v ! 5 # drop (Suc 5) v)"
    using v by (metis append.assoc)
  ultimately have "(u @ take 5 v) @ (v ! 5 # drop (Suc 5) v) = (u' @ sep # butlast h) @ (last h # e)"
    using assms(1) by simp
  moreover have "length (v ! 5 # drop (Suc 5) v) = length (last h # e)"
    using l v'(2) by simp
  ultimately have "v ! 5 # drop (Suc 5) v = last h # e"
    by (metis append_eq_append_conv)
  then have "v ! 5 = last h" by simp
  with hex k hex_not_k show False by metis
qed

lemma chunk_match_unique:
  assumes "u @ v = u' @ v'" and "matches_chunk v" and "matches_chunk v'"
  shows "u = u'"
proof -
  from assms(2,3) have "length v = length v'"
    using chunk_match_parts by metis
  with assms(1) show ?thesis by (metis append_eq_append_conv)
qed

lemma cleanName_unchanged:
  assumes "\<not> matches_at_end (matches_hash CHR ''.'' 8) s"
    and "\<not> matches_at_end (matches_hash CHR ''-'' 10) s"
    and "\<not> matches_at_end matches_chunk s"
  shows "cleanName s = s"
  using assms by (simp add: cleanName_def replace_at_end_no_match)

lemma cleanName_single_suffix:
  assumes suf: "matches_hash CHR ''.'' 8 suf \<or> matches_hash CHR ''-'' 10 suf \<or> matches_chunk suf"
    and a: "\<not> matches_at_end (matches_hash CHR ''.'' 8) (stem @ ''.js'')"
    and b: "\<not> matches_at_end (matches_hash CHR ''-'' 10) (stem @ ''.js'')"
    and c: "\<not> matches_at_end matches_chunk (stem @ ''.js'')"
  shows "cleanName (stem @ suf) = stem @ ''.js''"
proof -
  from suf consider (A) "matches_hash CHR ''.'' 8 suf" | (B) "matches_hash CHR ''-'' 10 suf"
    | (C) "matches_chunk suf" by blast
  then show ?thesis
  proof cases
    case A
    have "replace_at_end (matches_hash CHR ''.'' 8) ''.js'' (stem @ suf) = stem @ ''.js''"
    proof (rule replace_at_end_unique
        [where p = "matches_hash CHR ''.'' 8" and v = suf and u = stem and rep = "''.js''", OF A])
      fix u' v'
      assume "stem @ suf = u' @ v'" "matches_hash CHR ''.'' 8 v'"
      with hash_match_unique [of stem suf u' v' "CHR ''.''" 8 "CHR ''.''" 8] A
      show "u' = stem" by simp
    qed
    then show ?thesis
      using b c by (simp add: cleanName_def replace_at_end_no_match)
  next
    case B
    have "\<not> matches_at_end (matches_hash CHR ''.'' 8) (stem @ suf)"
    proof
      assume "matches_at_end (matches_hash CHR ''.'' 8) (stem @ suf)"
      then obtain u' v' where "stem @ suf = u' @ v'" "matches_hash CHR ''.'' 8 v'"
        unfolding matches_at_end_iff by blast
      with hash_match_unique [of stem suf u' v' "CHR ''-''" 10 "CHR ''.''" 8] B
      show False by simp
    qed
    moreover have "replace_at_end (matches_hash CHR ''-'' 10) ''.js'' (stem @ suf) = stem @ ''.js''"
    proof (rule replace_at_end_unique
        [where p = "matches_hash CHR ''-'' 10" and v = suf and u = stem and rep = "''.js''", OF B])
      fix u' v'
      assume "stem @ suf = u' @ v'" "matches_hash CHR ''-'' 10 v'"
      with hash_match_unique [of stem suf u' v' "CHR ''-''" 10 "CHR ''-''" 10] B
      show "u' = stem" by simp
    qed
    ultimately show ?thesis
      using c by (simp add: cleanName_def replace_at_end_no_match)
  next
    case C
    have na: "\<not> matches_at_end (matches_hash CHR ''.'' 8) (stem @ suf)"
    proof
      assume "matches_at_end (matches_hash CHR ''.'' 8) (stem @ suf)"
      then obtain u' v' where "stem @ suf = u' @ v'" "matches_hash CHR ''.'' 8 v'"
        unfolding matches_at_end_iff by blast
      with chunk_excludes_hash [of stem suf u' v' "CHR ''.''" 8] C show False by simp
    qed
    have nb: "\<not> matches_at_end (matches_hash CHR ''-'' 10) (stem @ suf)"
    proof
      assume "matches_at_end (matches_hash CHR ''-'' 10) (stem @ suf)"
      then obtain u' v' where "stem @ suf = u' @ v'" "matches_hash CHR ''-'' 10 v'"
        unfolding matches_at_end_iff by blast
      with chunk_excludes_hash [of stem suf u' v' "CHR ''-''" 10] C show False by simp
    qed
    have "replace_at_end matches_chunk ''.js'' (stem @ suf) = stem @ ''.js''"
    proof (rule replace_at_end_unique
        [where p = matches_chunk and v = suf and u = stem and rep = "''.js''", OF C])
      fix u' v'
      assume "stem @ suf = u' @ v'" "matches_chunk v'"
      with chunk_match_unique [of stem suf u' v'] C show "u' = stem" by simp
    qed
    then show ?thesis
      using na nb by (simp add: cleanName_def replace_at_end_no_match)
  qed
qed

subsection \<open>The stats extractor\<close>

lemma filter_js_Inr:
  assumes "filter_js entries = Inr js"
  shows "js = map (\<lambda>(file, st). (file, the st))
               (filter (\<lambda>(file, st). isFile (the st) \<and> path_extname file = ''.js'') entries)"
  using assms
proof (induction entries arbitrary: js)
  case Nil
  then show ?case by simp
next
  case (Cons e entries)
  obtain f st where e: "e = (f, st)" by (cases e)
  from Cons.prems obtain s r where s: "st = Some s" and r: "filter_js entries = Inr r"
    by (auto simp: e split: option.splits sum.splits)
  from Cons.prems have "js = (if isFile s \<and> path_extname f = ''.js'' then (f, s) # r else r)"
    by (simp add: e s r)
  with Cons.IH [OF r] show ?case by (simp add: e s)
qed

lemma recordFile_lookup:
  "map_of (recordFile (f, st) acc) k =
     (if cleanName f = k then Some \<lparr>size' = sizeKB (bytes st)\<rparr> else map_of acc k)"
  by (simp add: recordFile_def update_conv')

lemma fold_recordFile_lookup:
  "map_of (fold recordFile js acc) k =
     (if filter (\<lambda>(file, st). cleanName file = k) js = [] then map_of acc k
      else Some \<lparr>size' = sizeKB (bytes (snd (last (filter (\<lambda>(file, st). cleanName file = k) js))))\<rparr>)"
proof (induction js rule: rev_induct)
  case Nil
  then show ?case by simp
next
  case (snoc x js)
  obtain f st where x: "x = (f, st)" by (cases x)
  show ?case
    by (simp add: x snoc.IH recordFile_lookup)
qed

lemma recordFile_keys:
  "fst ` set (recordFile x acc) = insert (cleanName (fst x)) (fst ` set acc)"
  by (cases x) (simp add: recordFile_def dom_update)

lemma recordFile_distinct:
  "distinct (map fst acc) \<Longrightarrow> distinct (map fst (recordFile x acc))"
  by (cases x) (simp add: recordFile_def distinct_update)

lemma fold_recordFile_distinct:
  "distinct (map fst acc) \<Longrightarrow> distinct (map fst (fold recordFile js acc))"
  by (induction js arbitrary: acc) (simp_all add: recordFile_distinct)

lemma fold_recordFile_keys:
  "fst ` set (fold recordFile js acc) = fst ` set acc \<union> cleanName ` fst ` set js"
  by (induction js arbitrary: acc) (simp_all add: recordFile_keys)

lemma sortedResult_collect:
  "map_of (sortedResult (collect js)) = map_of (collect js)"
  "distinct (map fst (sortedResult (collect js)))"
  "set (sortedResult (collect js)) = set (collect js)"
proof -
  have d: "distinct (map fst (collect js))"
    unfolding collect_def by (rule fold_recordFile_distinct) simp
  show "map_of (sortedResult (collect js)) = map_of (collect js)"
    by (simp add: sortedResult_eq [OF d] map_of_Array_sort [OF d])
  show "distinct (map fst (sortedResult (collect js)))"
    by (simp add: sortedResult_eq [OF d] distinct_Array_sort d)
  show "set (sortedResult (collect js)) = set (collect js)"
    by (simp add: sortedResult_eq [OF d] set_Array_sort)
qed

subsection \<open>The example\<close>

lemma example_computeDiff: "computeDiff default_config example_master example_current = example_diff"
  by code_simp

lemma example_files:
  "files example_fs (path_join [] [outputFolder default_config, masterFile default_config]) =
     Some (Stats example_master)"
  "files example_fs (path_join [] [outputFolder default_config, currentFile default_config]) =
     Some (Stats example_current)"
  by (simp_all add: example_fs_def default_config_def path_join_def)

lemma example_distinct:
  "distinct (map fst example_master)" "distinct (map fst example_current)"
  by (simp_all add: example_master_def example_current_def)

lemma example_compare: "compareBundleSizes default_config [] example_fs = Inr example_diff"
  using compareBundleSizes_reads [OF example_files] by (simp add: example_computeDiff)

lemma example_sizes:
  "extractFileSizes example_diff =
     [(''n.js'', 300), (''chunk-resolver.js'', 5), (''b.js'', 11), (''a.js'', 50)]"
  by (simp add: extractFileSizes_def example_diff_def Object_fromEntries_def)

lemma example_check:
  "checkFileSize default_config example_diff =
     \<lparr>aboveAverageFiles = [\<lparr>fileName = ''n.js'', fileSize = 300\<rparr>],
      belowAverageFiles = [\<lparr>fileName = ''b.js'', fileSize = 11\<rparr>]\<rparr>"
  by (simp add: checkFileSize_def example_sizes checkFile_def isAboveAverageFile_def
      isBelowAverageFile_def default_config_def)

lemma example_clean:
  "cleanName ''main.abcdef12.chunk.js'' = ''main.abcdef12.js''"
  "cleanName ''main.abcdef12.js'' = ''main.js''"
  "cleanName ''main.js'' = ''main.js''"
  by code_simp+

lemma example_clean_twice:
  "cleanName ''a.chunk.chunk.js'' = ''a.chunk.js''"
  "cleanName ''a.chunk.js'' = ''a.js''"
  by code_simp+

lemma example_names:
  "cleanName ''main.aaaaaaaa.js'' = ''main.js''"
  "cleanName ''x.js'' = ''x.js''"
  "cleanName ''main.bbbbbbbb.js'' = ''main.js''"
  by code_simp+

lemma example_filter_js:
  "filter_js example_entries =
     Inr [(''main.aaaaaaaa.js'', \<lparr>isFile = True, bytes = 2048\<rparr>),
          (''x.js'', \<lparr>isFile = True, bytes = 4096\<rparr>),
          (''main.bbbbbbbb.js'', \<lparr>isFile = True, bytes = 10000\<rparr>)]"
  by (simp add: example_entries_def path_extname_def)

lemma example_hits:
  "filter (\<lambda>(file, st). cleanName file = ''main.js'')
     [(''main.aaaaaaaa.js'', \<lparr>isFile = True, bytes = 2048\<rparr>),
      (''x.js'', \<lparr>isFile = True, bytes = 4096\<rparr>),
      (''main.bbbbbbbb.js'', \<lparr>isFile = True, bytes = 10000\<rparr>)] =
     [(''main.aaaaaaaa.js'', \<lparr>isFile = True, bytes = 2048\<rparr>),
      (''main.bbbbbbbb.js'', \<lparr>isFile = True, bytes = 10000\<rparr>)]"
  by (simp add: example_names)

lemma example_sizeKB: "sizeKB 10000 = 977 / 100"
proof -
  have "(of_nat 10000 :: rat) / 1024 * 100 + 1 / 2 = 15633 / 16"
    by simp
  moreover have "\<lfloor>15633 / 16 :: rat\<rfloor> = 977"
    by (rule floor_unique) simp_all
  ultimately show ?thesis
    by (simp add: sizeKB_def toFixed2_def)
qed

lemma example_doubles:
  "round_double 100 = Finite 100" "round_double 5 = Finite 5" "round_double 3 = Finite 3"
  "round_double 1 = Finite 1" "round_double 10 = Finite 10"
  by code_simp+

lemma example_sizeDiffs:
  "sizeDiff \<lparr>size' = 105\<rparr> \<lparr>size' = 100\<rparr> = Finite 5"
  "sizeDiff \<lparr>size' = 315 / 100\<rparr> \<lparr>size' = 3\<rparr> = Finite (337769972052787 / 2251799813685248)"
  "sizeDiff \<lparr>size' = 1234 / 1000\<rparr> \<lparr>size' = 1\<rparr> = Finite (131730289100587 / 562949953421312)"
  "sizeDiff \<lparr>size' = 11\<rparr> \<lparr>size' = 10\<rparr> = Finite 1"
  by code_simp+

lemma example_percents:
  "Math_abs (js_mul (round_double (1 / 20)) (Finite 100)) = Finite 5"
  "Math_abs (js_mul (round_double (337769972052787 / 6755399441055744)) (Finite 100)) =
     Finite (1407374883553279 / 281474976710656)"
  "js_ge (Math_abs (js_mul (round_double (131730289100587 / 562949953421312)) (Finite 100)))
     (Finite 5)"
  "js_ge (Math_abs (js_mul (round_double (1 / 10)) (Finite 100))) (Finite 5)"
  by code_simp+

lemma example_rounded:
  "toFixed2 5 = 5" "toFixed2 1 = 1" "toFixed2 (131730289100587 / 562949953421312) = 23 / 100"
  "js_add (Finite 0) (Finite 5) = Finite 5"
  by code_simp+

lemma example_zero_baseline:
  "sizeDiff \<lparr>size' = 5\<rparr> \<lparr>size' = 0\<rparr> = Finite 5"
  "sizeDiff \<lparr>size' = 0\<rparr> \<lparr>size' = 0\<rparr> = Finite 0"
  "sizeDiffPercent \<lparr>size' = 5\<rparr> \<lparr>size' = 0\<rparr> = Infinity"
  "sizeDiffPercent \<lparr>size' = 0\<rparr> \<lparr>size' = 0\<rparr> = NaN"
  by code_simp+

lemma example_suffixes:
  "matches_hash CHR ''.'' 8 ''.abcdef12.js''"
  "matches_hash CHR ''-'' 10 ''-0123456789ab.js''"
  "matches_chunk ''.chunk.js''"
  by code_simp+

lemma example_clean_names:
  "\<not> matches_at_end (matches_hash CHR ''.'' 8) ''main.js''"
  "\<not> matches_at_end (matches_hash CHR ''-'' 10) ''main.js''"
  "\<not> matches_at_end matches_chunk ''main.js''"
  by code_simp+

section \<open>The four buckets\<close>

text \<open>
  Claim C1. When the two stats files hold a baseline and a current bundle map,
  \<open>compareBundleSizes\<close> returns a diff in which \<open>added\<close> has exactly the names that are
  only in the current map, \<open>removed\<close> exactly the names that are only in the baseline, and
  every name of both maps is in exactly one of \<open>changed\<close> and \<open>same\<close>; so every name of
  either map is in exactly one of the four buckets, and no bucket lists a name twice.
\<close>

theorem diff_partitions_file_names:
  assumes "files fs (path_join cwd [outputFolder cfg, masterFile cfg]) = Some (Stats masterStats)"
    and "files fs (path_join cwd [outputFolder cfg, currentFile cfg]) = Some (Stats currentStats)"
    and "distinct (map fst masterStats)" and "distinct (map fst currentStats)"
  shows "\<exists>d. compareBundleSizes cfg cwd fs = Inr d \<and>
           fst ` set (added d) = fst ` set currentStats - fst ` set masterStats \<and>
           fst ` set (removed d) = fst ` set masterStats - fst ` set currentStats \<and>
           fst ` set (changed d) \<union> fst ` set (same d) =
             fst ` set currentStats \<inter> fst ` set masterStats \<and>
           fst ` set (changed d) \<inter> fst ` set (same d) = {} \<and>
           distinct (map fst (added d)) \<and> distinct (map fst (removed d)) \<and>
           distinct (map fst (changed d)) \<and> distinct (map fst (same d)) \<and>
           (\<forall>f \<in> fst ` set masterStats \<union> fst ` set currentStats.
              length (filter (\<lambda>bucket. f \<in> set bucket)
                [map fst (added d), map fst (removed d), map fst (changed d), map fst (same d)]) = 1)"
proof -
  let ?d = "computeDiff cfg masterStats currentStats"
  note keys = computeDiff_keys [OF assms(3,4), of _ cfg]
  have r: "compareBundleSizes cfg cwd fs = Inr ?d"
    by (rule compareBundleSizes_reads [OF assms(1,2)])
  have a: "fst ` set (added ?d) = fst ` set currentStats - fst ` set masterStats"
    using keys(1) by blast
  have b: "fst ` set (removed ?d) = fst ` set masterStats - fst ` set currentStats"
    using keys(2) by blast
  have c: "fst ` set (changed ?d) \<union> fst ` set (same ?d) =
      fst ` set currentStats \<inter> fst ` set masterStats"
    using keys(3) by blast
  have e: "fst ` set (changed ?d) \<inter> fst ` set (same ?d) = {}"
    using keys(4) by blast
  have once: "length (filter (\<lambda>bucket. f \<in> set bucket)
      [map fst (added ?d), map fst (removed ?d), map fst (changed ?d), map fst (same ?d)]) = 1"
    if "f \<in> fst ` set masterStats \<union> fst ` set currentStats" for f
    using that keys(1) [of f] keys(2) [of f] keys(3) [of f] keys(4) [of f] by auto
  from once have all: "\<forall>f \<in> fst ` set masterStats \<union> fst ` set currentStats.
      length (filter (\<lambda>bucket. f \<in> set bucket)
        [map fst (added ?d), map fst (removed ?d), map fst (changed ?d), map fst (same ?d)]) = 1"
    by blast
  show ?thesis
    by (rule exI [of _ ?d]) (intro conjI r a b c e all computeDiff_distinct)
qed

theorem diff_partitions_file_names_witness:
  "compareBundleSizes default_config [] example_fs = Inr example_diff \<and>
   fst ` set (added example_diff) = {''n.js'', ''chunk-resolver.js''} \<and>
   fst ` set (removed example_diff) = {''r.js''} \<and>
   fst ` set (changed example_diff) \<union> fst ` set (same example_diff) = {''a.js'', ''b.js'', ''z.js''} \<and>
   fst ` set (changed example_diff) \<inter> fst ` set (same example_diff) = {}"
proof -
  have eq: "fst ` set example_current - fst ` set example_master = {''n.js'', ''chunk-resolver.js''}"
    "fst ` set example_master - fst ` set example_current = {''r.js''}"
    "fst ` set example_current \<inter> fst ` set example_master = {''a.js'', ''b.js'', ''z.js''}"
    by (auto simp: example_master_def example_current_def)
  show ?thesis
    using diff_partitions_file_names [OF example_files example_distinct]
    by (auto simp: example_compare eq)
qed

section \<open>The verdict and the failure marker\<close>

text \<open>
  Claim C2. Once the failed-file lists are computed, \<open>isSuccess\<close> returns true if and only
  if both lists are empty. \<open>writeFailureFlag\<close> leaves the file system as it is when the
  verdict is a pass; otherwise it writes the marker file (and throws where the file cannot
  be written).
\<close>

theorem verdict_and_failure_flag:
  assumes "failedFiles this = Some ff"
  shows "isSuccess this = Inr (aboveAverageFiles ff = [] \<and> belowAverageFiles ff = []) \<and>
         (aboveAverageFiles ff = [] \<and> belowAverageFiles ff = [] \<longrightarrow>
            writeFailureFlag this cwd fs = Inr fs) \<and>
         (\<not> (aboveAverageFiles ff = [] \<and> belowAverageFiles ff = []) \<longrightarrow>
            writeFailureFlag this cwd fs =
              (let p = path_join cwd [outputFolder (config this), failureFile (config this)]
               in if writable fs p then Inr (fs\<lparr>files := (files fs)(p \<mapsto> Text failureText)\<rparr>)
                  else Inl IOError))"
  using assms
  by (auto simp: isSuccess_def writeFailureFlag_def writeFileSync_def Let_def)

theorem verdict_and_failure_flag_witness:
  "isSuccess passing_reporter = Inr True \<and>
   writeFailureFlag passing_reporter [] empty_fs = Inr empty_fs \<and>
   isSuccess failing_reporter = Inr False \<and>
   writeFailureFlag failing_reporter [] empty_fs =
     Inr (empty_fs\<lparr>files := (files empty_fs)
            ([''bundle-analyzer'', ''bundle-diff-stage-failed.txt''] \<mapsto> Text failureText)\<rparr>)"
proof -
  have p: "failedFiles passing_reporter = Some \<lparr>aboveAverageFiles = [], belowAverageFiles = []\<rparr>"
    by (simp add: passing_reporter_def)
  have f: "failedFiles failing_reporter =
      Some \<lparr>aboveAverageFiles = [\<lparr>fileName = ''c.js'', fileSize = 300\<rparr>], belowAverageFiles = []\<rparr>"
    by (simp add: failing_reporter_def)
  have c: "outputFolder (config failing_reporter) = ''bundle-analyzer''"
    "failureFile (config failing_reporter) = ''bundle-diff-stage-failed.txt''"
    by (simp_all add: failing_reporter_def default_config_def)
  have w: "writable empty_fs q" for q
    by (simp add: empty_fs_def)
  show ?thesis
    using verdict_and_failure_flag [OF p, of "[]" empty_fs]
      verdict_and_failure_flag [OF f, of "[]" empty_fs]
    by (simp add: c w path_join_def)
qed

section \<open>The options of the constructor\<close>

text \<open>
  Claim C10. When the constructor returns a reporter, an option \<open>changeThreshold\<close>,
  \<open>splittingUpperLimit\<close> or \<open>splittingLowerLimit\<close> given as 0 has been replaced by its
  default (5, 250, 20), and none of the three configured values is 0.
\<close>

theorem constructor_falsy_numeric_options:
  assumes "constructor options cwd fs = Inr (this, fs')"
  shows "(opt_changeThreshold options = Some 0 \<longrightarrow> changeThreshold (config this) = 5) \<and>
         (opt_splittingUpperLimit options = Some 0 \<longrightarrow> splittingUpperLimit (config this) = 250) \<and>
         (opt_splittingLowerLimit options = Some 0 \<longrightarrow> splittingLowerLimit (config this) = 20) \<and>
         changeThreshold (config this) \<noteq> 0 \<and>
         splittingUpperLimit (config this) \<noteq> 0 \<and>
         splittingLowerLimit (config this) \<noteq> 0"
proof -
  have c: "changeThreshold (config this) = or_number (opt_changeThreshold options) 5"
    and u: "splittingUpperLimit (config this) = or_number (opt_splittingUpperLimit options) 250"
    and l: "splittingLowerLimit (config this) = or_number (opt_splittingLowerLimit options) 20"
    using assms unfolding constructor_def Let_def
    by (auto split: if_splits sum.splits)
  have nz: "d \<noteq> 0 \<Longrightarrow> or_number x d \<noteq> 0" for x d
    by (simp add: or_number_def split: option.splits)
  have z: "or_number (Some 0) d = d" for d
    by (simp add: or_number_def)
  show ?thesis
    unfolding c u l using nz z by auto
qed

theorem constructor_falsy_numeric_options_witness:
  "\<exists>this fs'. constructor zero_options [] empty_fs = Inr (this, fs') \<and>
     changeThreshold (config this) = 5 \<and> splittingUpperLimit (config this) = 250 \<and>
     splittingLowerLimit (config this) = 20"
proof -
  obtain this fs' where r: "constructor zero_options [] empty_fs = Inr (this, fs')"
    by (simp add: constructor_def Let_def zero_options_def empty_fs_def existsSync_def
        mkdirSync_def path_join_def)
  have "opt_changeThreshold zero_options = Some 0" "opt_splittingUpperLimit zero_options = Some 0"
    "opt_splittingLowerLimit zero_options = Some 0"
    by (simp_all add: zero_options_def)
  with constructor_falsy_numeric_options [OF r] r show ?thesis by blast
qed

section \<open>The threshold\<close>



section \<open>A baseline size of zero\<close>

text \<open>
  Claim C5, as the code has it. The claim asks for an explicit treatment of a baseline
  size of zero that never computes NaN or Infinity. The code has no such case: the
  division gives Infinity for a current size other than zero and NaN for zero by zero.
\<close>

theorem zero_baseline_percentage_counterexample:
  "sizeDiffPercent \<lparr>size' = 5\<rparr> \<lparr>size' = 0\<rparr> = Infinity \<and>
   sizeDiffPercent \<lparr>size' = 0\<rparr> \<lparr>size' = 0\<rparr> = NaN"
  by (simp add: example_zero_baseline)

text \<open>
  Claim C5, amended. For a file of both maps whose baseline size is zero the percentage is
  Infinity when the size difference, which is the current size as a double, is not zero,
  and NaN when it is zero; the comparison with the threshold then classifies the file as
  changed in the first case and as same in the second, whatever the threshold. The
  difference is zero for a current size of zero, and not zero for every current size
  from the smallest positive double on.
\<close>

theorem zero_baseline_classification:
  assumes "size' masterData = 0"
  shows
    "let c = size' currentData; sd = sizeDiff currentData masterData;
         d' = processChangedFile cfg d file currentData masterData
     in sizeDiffPercent currentData masterData = (if sd = Finite 0 then NaN else Infinity) \<and>
        (c = 0 \<longrightarrow> sd = Finite 0) \<and>
        (2 powi (- 1074) \<le> \<bar>c\<bar> \<longrightarrow> sd \<noteq> Finite 0) \<and>
        (sd \<noteq> Finite 0 \<longrightarrow>
           changed d' =
             AList.update file \<lparr>current = c, master = 0, difference = toFixed2_of sd\<rparr> (changed d) \<and>
           same d' = same d \<and>
           countChanged (summary d') = countChanged (summary d) + 1) \<and>
        (sd = Finite 0 \<longrightarrow>
           same d' = AList.update file c (same d) \<and> changed d' = changed d \<and>
           summary d' = summary d)"
proof -
  note p = sizeDiffPercent_zero [OF assms, of currentData]
  have t: "js_ge Infinity (round_double (changeThreshold cfg))"
    by (cases "round_double (changeThreshold cfg)") simp_all
  show ?thesis
    unfolding Let_def
    apply (intro conjI impI)
    subgoal by (rule p)
    subgoal using assms by (rule sizeDiff_zero_zero)
    subgoal using assms by (rule sizeDiff_zero_nonzero)
    subgoal using assms t by (simp add: processChangedFile_def p Let_def)
    subgoal using t by (simp add: processChangedFile_def p Let_def)
    subgoal using t by (simp add: processChangedFile_def p Let_def)
    subgoal by (simp add: processChangedFile_def p Let_def)
    subgoal by (simp add: processChangedFile_def p Let_def)
    subgoal by (simp add: processChangedFile_def p Let_def)
    done
qed

theorem zero_baseline_classification_witness:
  "sizeDiffPercent \<lparr>size' = 5\<rparr> \<lparr>size' = 0\<rparr> = Infinity \<and>
   changed (processChangedFile default_config initializeDiff ''z.js'' \<lparr>size' = 5\<rparr> \<lparr>size' = 0\<rparr>) =
     [(''z.js'', \<lparr>current = 5, master = 0, difference = 5\<rparr>)] \<and>
   sizeDiffPercent \<lparr>size' = 0\<rparr> \<lparr>size' = 0\<rparr> = NaN \<and>
   same (processChangedFile default_config initializeDiff ''z.js'' \<lparr>size' = 0\<rparr> \<lparr>size' = 0\<rparr>) =
     [(''z.js'', 0)]"
proof -
  have z: "size' \<lparr>size' = 0\<rparr> = 0" by simp
  have s: "(2::rat) powi (- 1074) \<le> \<bar>5\<bar>"
  proof -
    have "(2::rat) powi (- 1074) \<le> 2 powi 0"
      by (intro power_int_increasing) simp_all
    then show ?thesis by simp
  qed
  show ?thesis
    using zero_baseline_classification [OF z, of "\<lparr>size' = 5\<rparr>" default_config initializeDiff "''z.js''"]
      zero_baseline_classification [OF z, of "\<lparr>size' = 0\<rparr>" default_config initializeDiff "''z.js''"]
      s
    by (simp add: Let_def initializeDiff_def example_zero_baseline example_rounded toFixed2_of_def)
qed

section \<open>The order of the changed files\<close>

text \<open>
  Claim C4, as the code has it. The claim orders \<open>changed\<close> by descending absolute
  difference, so that a decrease of 50 comes before an increase of 1. On the example the
  increase of 1 comes first.
\<close>

theorem changed_counterexample:
  "compareBundleSizes default_config [] example_fs = Inr example_diff \<and>
   changed example_diff =
     [(''b.js'', \<lparr>current = 11, master = 10, difference = 1\<rparr>),
      (''a.js'', \<lparr>current = 50, master = 100, difference = - 50\<rparr>)] \<and>
   \<not> ordered_by_abs_difference (changed example_diff)"
  by (simp add: example_compare example_diff_def ordered_by_abs_difference_def)

text \<open>
  Claim C4, amended. In every diff that \<open>compareBundleSizes\<close> returns, the entries of
  \<open>changed\<close> are in descending order of their signed difference: increases first, the
  largest first, and decreases last, the largest decrease at the end.
\<close>

theorem changed_ordered_by_difference:
  assumes "compareBundleSizes cfg cwd fs = Inr d"
  shows "ordered_by_difference (changed d)"
  using compareBundleSizes_Inr [OF assms] changed_computeDiff_ordered by auto

theorem changed_ordered_by_difference_witness:
  "compareBundleSizes default_config [] example_fs = Inr example_diff \<and>
   ordered_by_difference (changed example_diff)"
  using changed_ordered_by_difference [OF example_compare] by (simp add: example_compare)

section \<open>The files under the size budget\<close>

text \<open>
  Claim C7. For every diff, the names in the two failed-file lists of \<open>checkFileSize\<close>
  are names of \<open>added\<close> or \<open>changed\<close>, and each failed file carries the size of its
  added entry or the current size of its changed entry. In a diff returned by
  \<open>compareBundleSizes\<close>, no name of \<open>removed\<close> or \<open>same\<close> is in either list.
\<close>

theorem size_checks_cover_added_and_changed_only:
  "fileName ` set (aboveAverageFiles (checkFileSize cfg d)) \<union>
   fileName ` set (belowAverageFiles (checkFileSize cfg d)) \<subseteq>
     fst ` set (added d) \<union> fst ` set (changed d) \<and>
   (\<forall>x \<in> set (aboveAverageFiles (checkFileSize cfg d)) \<union>
          set (belowAverageFiles (checkFileSize cfg d)).
      (\<exists>e. (fileName x, e) \<in> set (added d) \<and> fileSize x = size' e) \<or>
      (\<exists>e. (fileName x, e) \<in> set (changed d) \<and> fileSize x = current e)) \<and>
   (files fs (path_join cwd [outputFolder cfg, masterFile cfg]) = Some (Stats masterStats) \<and>
    files fs (path_join cwd [outputFolder cfg, currentFile cfg]) = Some (Stats currentStats) \<and>
    distinct (map fst masterStats) \<and> distinct (map fst currentStats) \<longrightarrow>
      (\<exists>r. compareBundleSizes cfg cwd fs = Inr r \<and>
         (fileName ` set (aboveAverageFiles (checkFileSize cfg r)) \<union>
          fileName ` set (belowAverageFiles (checkFileSize cfg r))) \<inter>
         (fst ` set (removed r) \<union> fst ` set (same r)) = {}))"
proof (intro conjI impI)
  show "fileName ` set (aboveAverageFiles (checkFileSize cfg d)) \<union>
      fileName ` set (belowAverageFiles (checkFileSize cfg d)) \<subseteq>
      fst ` set (added d) \<union> fst ` set (changed d)"
    by (rule checkFileSize_names)
next
  show "\<forall>x \<in> set (aboveAverageFiles (checkFileSize cfg d)) \<union>
          set (belowAverageFiles (checkFileSize cfg d)).
      (\<exists>e. (fileName x, e) \<in> set (added d) \<and> fileSize x = size' e) \<or>
      (\<exists>e. (fileName x, e) \<in> set (changed d) \<and> fileSize x = current e)"
  proof
    fix x
    assume "x \<in> set (aboveAverageFiles (checkFileSize cfg d)) \<union>
        set (belowAverageFiles (checkFileSize cfg d))"
    then have "(fileName x, fileSize x) \<in> set (extractFileSizes d)"
      unfolding checkFileSize_above checkFileSize_below by auto
    then show "(\<exists>e. (fileName x, e) \<in> set (added d) \<and> fileSize x = size' e) \<or>
        (\<exists>e. (fileName x, e) \<in> set (changed d) \<and> fileSize x = current e)"
      by (rule extractFileSizes_sizes)
  qed
next
  assume h: "files fs (path_join cwd [outputFolder cfg, masterFile cfg]) = Some (Stats masterStats) \<and>
    files fs (path_join cwd [outputFolder cfg, currentFile cfg]) = Some (Stats currentStats) \<and>
    distinct (map fst masterStats) \<and> distinct (map fst currentStats)"
  let ?r = "computeDiff cfg masterStats currentStats"
  have r: "compareBundleSizes cfg cwd fs = Inr ?r"
    using h by (simp add: compareBundleSizes_reads)
  have dm: "distinct (map fst masterStats)" and dc: "distinct (map fst currentStats)"
    using h by simp_all
  note keys = computeDiff_keys [OF dm dc, of _ cfg]
  have disj: "f \<notin> fst ` set (removed ?r) \<union> fst ` set (same ?r)"
    if "f \<in> fst ` set (added ?r) \<union> fst ` set (changed ?r)" for f
    using that keys(1) [of f] keys(2) [of f] keys(3) [of f] keys(4) [of f] by auto
  have sub: "f \<in> fst ` set (added ?r) \<union> fst ` set (changed ?r)"
    if "f \<in> fileName ` set (aboveAverageFiles (checkFileSize cfg ?r)) \<union>
          fileName ` set (belowAverageFiles (checkFileSize cfg ?r))" for f
    using that checkFileSize_names [of cfg ?r] by (rule_tac subsetD)
  from disj sub
  have "(fileName ` set (aboveAverageFiles (checkFileSize cfg ?r)) \<union>
          fileName ` set (belowAverageFiles (checkFileSize cfg ?r))) \<inter>
         (fst ` set (removed ?r) \<union> fst ` set (same ?r)) = {}"
    by blast
  with r show "\<exists>r. compareBundleSizes cfg cwd fs = Inr r \<and>
         (fileName ` set (aboveAverageFiles (checkFileSize cfg r)) \<union>
          fileName ` set (belowAverageFiles (checkFileSize cfg r))) \<inter>
         (fst ` set (removed r) \<union> fst ` set (same r)) = {}"
    by blast
qed

theorem size_checks_cover_added_and_changed_only_witness:
  "compareBundleSizes default_config [] example_fs = Inr example_diff \<and>
   fileName ` set (aboveAverageFiles (checkFileSize default_config example_diff)) = {''n.js''} \<and>
   fileName ` set (belowAverageFiles (checkFileSize default_config example_diff)) = {''b.js''} \<and>
   (fileName ` set (aboveAverageFiles (checkFileSize default_config example_diff)) \<union>
    fileName ` set (belowAverageFiles (checkFileSize default_config example_diff))) \<inter>
   (fst ` set (removed example_diff) \<union> fst ` set (same example_diff)) = {}"
  using size_checks_cover_added_and_changed_only
    [of default_config example_diff example_fs "[]" example_master example_current]
    example_files example_distinct
  by (simp add: example_compare example_check)

text \<open>
  Claim C8. For every file that \<open>checkFileSize\<close> examines, with its size: the name is in
  \<open>aboveAverageFiles\<close> if and only if the size is greater than the upper limit and the
  name is not in the allowlist for large files; it is in \<open>belowAverageFiles\<close> if and only
  if it is not in \<open>aboveAverageFiles\<close>, the size is less than the lower limit, the name
  is not in the allowlist for small files and the name does not contain \<open>resolver\<close>. A
  listed file carries that size, and no name is in both lists.
\<close>

theorem failed_file_membership:
  assumes "(n, s) \<in> set (extractFileSizes d)"
  shows
    "(n \<in> fileName ` set (aboveAverageFiles (checkFileSize cfg d)) \<longleftrightarrow>
        splittingUpperLimit cfg < s \<and> n \<notin> set (aboveAverageFiles_cfg cfg)) \<and>
     (n \<in> fileName ` set (belowAverageFiles (checkFileSize cfg d)) \<longleftrightarrow>
        n \<notin> fileName ` set (aboveAverageFiles (checkFileSize cfg d)) \<and>
        s < splittingLowerLimit cfg \<and> n \<notin> set (belowAverageFiles_cfg cfg) \<and>
        \<not> (\<exists>p q. n = p @ ''resolver'' @ q)) \<and>
     (\<forall>x \<in> set (aboveAverageFiles (checkFileSize cfg d)) \<union>
            set (belowAverageFiles (checkFileSize cfg d)).
        fileName x = n \<longrightarrow> fileSize x = s) \<and>
     fileName ` set (aboveAverageFiles (checkFileSize cfg d)) \<inter>
     fileName ` set (belowAverageFiles (checkFileSize cfg d)) = {}"
proof -
  note dist = extractFileSizes_distinct [of d]
  have above: "n \<in> fileName ` set (aboveAverageFiles (checkFileSize cfg d)) \<longleftrightarrow>
      isAboveAverageFile cfg n s"
    unfolding checkFileSize_above
    by (rule name_of_selected [OF dist assms])
  have below: "n \<in> fileName ` set (belowAverageFiles (checkFileSize cfg d)) \<longleftrightarrow>
      \<not> isAboveAverageFile cfg n s \<and> isBelowAverageFile cfg n s"
    unfolding checkFileSize_below
    by (rule name_of_selected [OF dist assms])
  have sizes: "\<forall>x \<in> set (aboveAverageFiles (checkFileSize cfg d)) \<union>
            set (belowAverageFiles (checkFileSize cfg d)).
        fileName x = n \<longrightarrow> fileSize x = s"
  proof (intro ballI impI)
    fix x
    assume x: "x \<in> set (aboveAverageFiles (checkFileSize cfg d)) \<union>
        set (belowAverageFiles (checkFileSize cfg d))" and n: "fileName x = n"
    from x show "fileSize x = s"
    proof
      assume "x \<in> set (aboveAverageFiles (checkFileSize cfg d))"
      then show ?thesis
        unfolding checkFileSize_above using n by (rule size_of_selected [OF dist assms])
    next
      assume "x \<in> set (belowAverageFiles (checkFileSize cfg d))"
      then show ?thesis
        unfolding checkFileSize_below using n by (rule size_of_selected [OF dist assms])
    qed
  qed
  have disj: "fileName ` set (aboveAverageFiles (checkFileSize cfg d)) \<inter>
     fileName ` set (belowAverageFiles (checkFileSize cfg d)) = {}"
  proof (rule ccontr)
    assume "fileName ` set (aboveAverageFiles (checkFileSize cfg d)) \<inter>
        fileName ` set (belowAverageFiles (checkFileSize cfg d)) \<noteq> {}"
    then obtain m where ma: "m \<in> fileName ` set (aboveAverageFiles (checkFileSize cfg d))"
      and mb: "m \<in> fileName ` set (belowAverageFiles (checkFileSize cfg d))"
      by blast
    from ma obtain a where a: "(m, a) \<in> set (extractFileSizes d)"
      unfolding checkFileSize_above by auto
    from ma have "isAboveAverageFile cfg m a"
      unfolding checkFileSize_above name_of_selected [OF dist a] .
    moreover from mb have "\<not> isAboveAverageFile cfg m a \<and> isBelowAverageFile cfg m a"
      unfolding checkFileSize_below name_of_selected [OF dist a] .
    ultimately show False by simp
  qed
  show ?thesis
    unfolding above below
    using sizes disj
    by (simp add: isAboveAverageFile_def isBelowAverageFile_def String_includes_iff)
qed

theorem failed_file_membership_witness:
  "(''n.js'', 300) \<in> set (extractFileSizes example_diff) \<and>
   ''n.js'' \<in> fileName ` set (aboveAverageFiles (checkFileSize default_config example_diff)) \<and>
   ''n.js'' \<notin> fileName ` set (belowAverageFiles (checkFileSize default_config example_diff)) \<and>
   (''chunk-resolver.js'', 5) \<in> set (extractFileSizes example_diff) \<and>
   ''chunk-resolver.js'' \<notin> fileName ` set (belowAverageFiles (checkFileSize default_config example_diff))"
proof -
  have n: "(''n.js'', 300) \<in> set (extractFileSizes example_diff)"
    and c: "(''chunk-resolver.js'', 5) \<in> set (extractFileSizes example_diff)"
    by (simp_all add: example_sizes)
  show ?thesis
    using failed_file_membership [OF n, of default_config]
      failed_file_membership [OF c, of default_config]
    by (simp add: example_check example_sizes)
qed

section \<open>Normalization applied twice\<close>

text \<open>
  Claim C6, as the code has it. The claim is that normalizing a normalized name changes
  nothing. Each of the three replacements is applied once, in the order hash, chunk hash,
  \<open>.chunk\<close>: a name may still end in a suffix that a second application strips.
\<close>

theorem cleanName_not_idempotent_counterexample:
  "cleanName ''a.chunk.chunk.js'' = ''a.chunk.js'' \<and>
   cleanName (cleanName ''a.chunk.chunk.js'') = ''a.js'' \<and>
   cleanName (cleanName ''a.chunk.chunk.js'') \<noteq> cleanName ''a.chunk.chunk.js'' \<and>
   cleanName ''main.abcdef12.chunk.js'' = ''main.abcdef12.js'' \<and>
   cleanName (cleanName ''main.abcdef12.chunk.js'') = ''main.js'' \<and>
   cleanName (cleanName ''main.abcdef12.chunk.js'') \<noteq> cleanName ''main.abcdef12.chunk.js''"
  by (simp add: example_clean example_clean_twice)

text \<open>
  Claim C6, amended. Normalization applies the three strip rules once each, in the order
  content hash, chunk hash, \<open>.chunk.js\<close>, each replacing the leftmost suffix that its
  pattern matches by \<open>.js\<close>. Normalizing twice gives the same as normalizing once for
  every file name that none of the three patterns matches, which normalization leaves as
  it is, and for every file name made of a stem and a suffix that one of the three
  patterns matches, where the stem followed by \<open>.js\<close> is matched by none: it is
  normalized to the stem followed by \<open>.js\<close>.
\<close>

theorem cleanName_rules_and_idempotence:
  "(\<exists>a b. strips (matches_hash CHR ''.'' 8) n a \<and> strips (matches_hash CHR ''-'' 10) a b \<and>
          strips matches_chunk b (cleanName n)) \<and>
   (\<not> matches_at_end (matches_hash CHR ''.'' 8) n \<and>
    \<not> matches_at_end (matches_hash CHR ''-'' 10) n \<and>
    \<not> matches_at_end matches_chunk n \<longrightarrow>
      cleanName n = n \<and> cleanName (cleanName n) = cleanName n) \<and>
   (n = stem @ suf \<and>
    (matches_hash CHR ''.'' 8 suf \<or> matches_hash CHR ''-'' 10 suf \<or> matches_chunk suf) \<and>
    \<not> matches_at_end (matches_hash CHR ''.'' 8) (stem @ ''.js'') \<and>
    \<not> matches_at_end (matches_hash CHR ''-'' 10) (stem @ ''.js'') \<and>
    \<not> matches_at_end matches_chunk (stem @ ''.js'') \<longrightarrow>
      cleanName n = stem @ ''.js'' \<and> cleanName (cleanName n) = cleanName n)"
proof (intro conjI impI)
  let ?a = "replace_at_end (matches_hash CHR ''.'' 8) ''.js'' n"
  let ?b = "replace_at_end (matches_hash CHR ''-'' 10) ''.js'' ?a"
  have "strips (matches_hash CHR ''.'' 8) n ?a \<and> strips (matches_hash CHR ''-'' 10) ?a ?b \<and>
      strips matches_chunk ?b (cleanName n)"
    unfolding cleanName_def by (intro conjI strips_replace_at_end)
  then show "\<exists>a b. strips (matches_hash CHR ''.'' 8) n a \<and> strips (matches_hash CHR ''-'' 10) a b \<and>
      strips matches_chunk b (cleanName n)"
    by blast
next
  assume h: "\<not> matches_at_end (matches_hash CHR ''.'' 8) n \<and>
    \<not> matches_at_end (matches_hash CHR ''-'' 10) n \<and> \<not> matches_at_end matches_chunk n"
  then show "cleanName n = n" by (simp add: cleanName_unchanged)
  with h show "cleanName (cleanName n) = cleanName n" by simp
next
  assume h: "n = stem @ suf \<and>
    (matches_hash CHR ''.'' 8 suf \<or> matches_hash CHR ''-'' 10 suf \<or> matches_chunk suf) \<and>
    \<not> matches_at_end (matches_hash CHR ''.'' 8) (stem @ ''.js'') \<and>
    \<not> matches_at_end (matches_hash CHR ''-'' 10) (stem @ ''.js'') \<and>
    \<not> matches_at_end matches_chunk (stem @ ''.js'')"
  then show r: "cleanName n = stem @ ''.js''"
    using cleanName_single_suffix [of suf stem] by blast
  from h show "cleanName (cleanName n) = cleanName n"
    unfolding r by (simp add: cleanName_unchanged)
qed

theorem cleanName_rules_and_idempotence_witness:
  "cleanName ''main.js'' = ''main.js'' \<and>
   cleanName ''main.abcdef12.js'' = ''main.js'' \<and>
   cleanName (cleanName ''main.abcdef12.js'') = cleanName ''main.abcdef12.js'' \<and>
   cleanName ''main-0123456789ab.js'' = ''main.js'' \<and>
   cleanName (cleanName ''main-0123456789ab.js'') = cleanName ''main-0123456789ab.js'' \<and>
   cleanName ''main.chunk.js'' = ''main.js'' \<and>
   cleanName (cleanName ''main.chunk.js'') = cleanName ''main.chunk.js''"
proof -
  have s: "''main.js'' = ''main'' @ ''.js''" "''main.abcdef12.js'' = ''main'' @ ''.abcdef12.js''"
    "''main-0123456789ab.js'' = ''main'' @ ''-0123456789ab.js''"
    "''main.chunk.js'' = ''main'' @ ''.chunk.js''"
    by simp_all
  note c = example_clean_names [unfolded s(1)]
  from cleanName_rules_and_idempotence [of "''main.js''" "[]" "[]"] example_clean_names
  have 1: "cleanName ''main.js'' = ''main.js''" by blast
  from cleanName_rules_and_idempotence [of "''main.abcdef12.js''" "''main''" "''.abcdef12.js''"]
    s(2) example_suffixes(1) c
  have 2: "cleanName ''main.abcdef12.js'' = ''main'' @ ''.js'' \<and>
      cleanName (cleanName ''main.abcdef12.js'') = cleanName ''main.abcdef12.js''" by blast
  from cleanName_rules_and_idempotence [of "''main-0123456789ab.js''" "''main''" "''-0123456789ab.js''"]
    s(3) example_suffixes(2) c
  have 3: "cleanName ''main-0123456789ab.js'' = ''main'' @ ''.js'' \<and>
      cleanName (cleanName ''main-0123456789ab.js'') = cleanName ''main-0123456789ab.js''" by blast
  from cleanName_rules_and_idempotence [of "''main.chunk.js''" "''main''" "''.chunk.js''"]
    s(4) example_suffixes(3) c
  have 4: "cleanName ''main.chunk.js'' = ''main'' @ ''.js'' \<and>
      cleanName (cleanName ''main.chunk.js'') = cleanName ''main.chunk.js''" by blast
  from 1 2 3 4 show ?thesis by simp
qed

section \<open>Files with the same canonical name\<close>

text \<open>
  Claim C9. When the build folder can be listed and the stats file written, the bundle
  map that \<open>generateBundleStats\<close> writes holds, for every canonical name that some
  \<open>.js\<close> file of the folder normalizes to, the size of the last such file in the order
  of the listing; each canonical name has one entry.
\<close>

theorem last_file_wins:
  assumes "dirs fs (path_join cwd [buildFolder cfg]) = Some entries"
    and "filter_js entries = Inr js"
    and "writable fs (path_join cwd [outputFolder cfg, currentFile cfg])"
    and "filter (\<lambda>(file, st). cleanName file = k) js \<noteq> []"
  shows "\<exists>m. generateBundleStats cfg cwd fs =
             Inr (fs\<lparr>files := (files fs)
                    (path_join cwd [outputFolder cfg, currentFile cfg] \<mapsto> Stats m)\<rparr>) \<and>
           map_of m k =
             Some \<lparr>size' = sizeKB (bytes (snd (last (filter (\<lambda>(file, st). cleanName file = k) js))))\<rparr> \<and>
           distinct (map fst m) \<and>
           fst ` set m = cleanName ` fst ` set js \<and>
           js = map (\<lambda>(file, st). (file, the st))
                  (filter (\<lambda>(file, st). isFile (the st) \<and> path_extname file = ''.js'') entries)"
proof -
  let ?m = "sortedResult (collect js)"
  have run: "generateBundleStats cfg cwd fs =
      Inr (fs\<lparr>files := (files fs)(path_join cwd [outputFolder cfg, currentFile cfg] \<mapsto> Stats ?m)\<rparr>)"
    using assms(1-3) by (simp add: generateBundleStats_def readdirSync_def writeFileSync_def)
  have look: "map_of ?m k =
      Some \<lparr>size' = sizeKB (bytes (snd (last (filter (\<lambda>(file, st). cleanName file = k) js))))\<rparr>"
  proof -
    have "map_of ?m k = map_of (collect js) k"
      by (simp only: sortedResult_collect(1))
    also have "\<dots> = map_of (fold recordFile js []) k"
      by (simp only: collect_def)
    finally show ?thesis
      using assms(4) by (simp add: fold_recordFile_lookup)
  qed
  have keys: "fst ` set ?m = cleanName ` fst ` set js"
  proof -
    have "fst ` set ?m = fst ` set (collect js)"
      by (simp only: sortedResult_collect(3))
    also have "\<dots> = fst ` set (fold recordFile js [])"
      by (simp only: collect_def)
    finally show ?thesis
      by (simp add: fold_recordFile_keys)
  qed
  show ?thesis
    by (rule exI [of _ ?m]) (intro conjI run look keys sortedResult_collect(2) filter_js_Inr [OF assms(2)])
qed

theorem last_file_wins_witness:
  "\<exists>m. generateBundleStats default_config [] example_build_fs =
          Inr (example_build_fs\<lparr>files := (files example_build_fs)
                 ([''bundle-analyzer'', ''current-bundle-stats.json''] \<mapsto> Stats m)\<rparr>) \<and>
        map_of m ''main.js'' = Some \<lparr>size' = 977 / 100\<rparr>"
proof -
  have d: "dirs example_build_fs (path_join [] [buildFolder default_config]) = Some example_entries"
    by (simp add: example_build_fs_def default_config_def path_join_def)
  have w: "writable example_build_fs
      (path_join [] [outputFolder default_config, currentFile default_config])"
    by (simp add: example_build_fs_def)
  have h: "filter (\<lambda>(file, st). cleanName file = ''main.js'')
     [(''main.aaaaaaaa.js'', \<lparr>isFile = True, bytes = 2048\<rparr>),
      (''x.js'', \<lparr>isFile = True, bytes = 4096\<rparr>),
      (''main.bbbbbbbb.js'', \<lparr>isFile = True, bytes = 10000\<rparr>)] \<noteq> []"
    by (simp only: example_hits) simp
  have p: "path_join [] [outputFolder default_config, currentFile default_config] =
      [''bundle-analyzer'', ''current-bundle-stats.json'']"
    by (simp add: default_config_def path_join_def)
  from last_file_wins [OF d example_filter_js w h] show ?thesis
    unfolding example_hits p by (auto simp: example_sizeKB)
qed

end
